theory Spec2Isabelle
  imports Complex_Main "HOL-Library.Multiset" "HOL-Library.Sublist"
begin

section \<open>Python primitives used by the ingestion and retrieval code\<close>

text \<open>
  Text is modelled as \<^typ>\<open>string\<close> over ASCII. Python floats are modelled as
  \<^typ>\<open>real\<close>: rounding is not represented. A UUID is an opaque key.
\<close>

type_synonym uuid = nat

datatype py_error =
    ZeroDivisionError
  | ValueError
  | IndexError
  | APIError
  | NonFinite  \<comment> \<open>numpy division by zero: the source continues with inf or nan, which
                   a \<^typ>\<open>real\<close> cannot hold\<close>

text \<open>\<^verbatim>\<open>str.isspace\<close> on one ASCII character; also the class \<^verbatim>\<open>\s\<close> of \<^verbatim>\<open>re\<close>.\<close>

definition isspace :: "char \<Rightarrow> bool" where
  "isspace c \<longleftrightarrow> c \<in> set [CHR 0x09, CHR 0x0A, CHR 0x0B, CHR 0x0C, CHR 0x0D,
                             CHR 0x1C, CHR 0x1D, CHR 0x1E, CHR 0x1F, CHR 0x20]"

text \<open>The class \<^verbatim>\<open>\w\<close> of \<^verbatim>\<open>re\<close> on ASCII: letters, digits and the underscore.\<close>

definition isword :: "char \<Rightarrow> bool" where
  "isword c \<longleftrightarrow> c \<in> set (''abcdefghijklmnopqrstuvwxyz'' @ ''ABCDEFGHIJKLMNOPQRSTUVWXYZ''
                            @ ''0123456789_'')"

text \<open>\<^verbatim>\<open>str.lower\<close> on one ASCII character.\<close>

definition lower_char :: "char \<Rightarrow> char" where
  "lower_char c =
     (case map_of (zip ''ABCDEFGHIJKLMNOPQRSTUVWXYZ'' ''abcdefghijklmnopqrstuvwxyz'') c of
        None \<Rightarrow> c | Some d \<Rightarrow> d)"

definition lower :: "string \<Rightarrow> string" where
  "lower s = map lower_char s"

definition lstrip :: "string \<Rightarrow> string" where
  "lstrip s = dropWhile isspace s"

definition rstrip :: "string \<Rightarrow> string" where
  "rstrip s = rev (dropWhile isspace (rev s))"

definition strip :: "string \<Rightarrow> string" where
  "strip s = rstrip (lstrip s)"

text \<open>\<^verbatim>\<open>str.split()\<close> without arguments: the maximal runs of non-space characters.
  The first argument is the run read so far, reversed.\<close>

fun split_aux :: "string \<Rightarrow> string \<Rightarrow> string list" where
  "split_aux cur [] = (if cur = [] then [] else [rev cur])"
| "split_aux cur (c # cs) =
     (if isspace c
      then (if cur = [] then split_aux [] cs else rev cur # split_aux [] cs)
      else split_aux (c # cur) cs)"

definition split :: "string \<Rightarrow> string list" where
  "split s = split_aux [] s"

text \<open>\<^verbatim>\<open>sorted(xs, key=f, reverse=True)\<close> and \<^verbatim>\<open>xs.sort(key=f, reverse=True)\<close>: descending
  by key, elements with equal keys keep their original order.\<close>

definition sort_desc :: "('a \<Rightarrow> real) \<Rightarrow> 'a list \<Rightarrow> 'a list" where
  "sort_desc f xs = sort_key (\<lambda>x. - f x) xs"

text \<open>The slice \<^verbatim>\<open>xs[:n]\<close> for any integer \<open>n\<close>: a negative \<open>n\<close> counts from the end.\<close>

definition slice_to :: "int \<Rightarrow> 'a list \<Rightarrow> 'a list" where
  "slice_to n xs = (if 0 \<le> n then take (nat n) xs else take (nat (int (length xs) + n)) xs)"

text \<open>The slice \<^verbatim>\<open>xs[n:]\<close> for any integer \<open>n\<close>.\<close>

definition slice_from :: "int \<Rightarrow> 'a list \<Rightarrow> 'a list" where
  "slice_from n xs = (if 0 \<le> n then drop (nat n) xs else drop (nat (int (length xs) + n)) xs)"

text \<open>A dict built by inserting the pairs of a list in order: a later pair overrides an
  earlier one with the same key; the keys are kept in order of first insertion.\<close>

definition dict_get :: "('k \<times> 'v) list \<Rightarrow> 'k \<Rightarrow> 'v option" where
  "dict_get kvs k = map_of (rev kvs) k"

definition dict_keys :: "('k \<times> 'v) list \<Rightarrow> 'k list" where
  "dict_keys kvs = rev (remdups (rev (map fst kvs)))"

definition dict_values :: "('k \<times> 'v) list \<Rightarrow> 'v list" where
  "dict_values kvs = map (\<lambda>k. the (dict_get kvs k)) (dict_keys kvs)"

section \<open>Lexical scorer: \<^verbatim>\<open>BM25\<close> (services/retrieval.py)\<close>

record bm25 =
  k1 :: real
  b :: real

definition default_bm25 :: bm25 where
  "default_bm25 = \<lparr>k1 = 3/2, b = 3/4\<rparr>"

definition tokenize :: "string \<Rightarrow> string list" where
  "tokenize text =
     (let text1 = lower text;
          text2 = map (\<lambda>c. if isword c \<or> isspace c then c else CHR '' '') text1
      in split text2)"

text \<open>A \<^verbatim>\<open>defaultdict(int)\<close>: the keys present and their counts.\<close>

definition incr :: "(string \<rightharpoonup> nat) \<Rightarrow> string \<Rightarrow> (string \<rightharpoonup> nat)" where
  "incr d t = d(t \<mapsto> (case d t of None \<Rightarrow> 0 | Some n \<Rightarrow> n) + 1)"

definition dd_get :: "(string \<rightharpoonup> nat) \<Rightarrow> string \<Rightarrow> nat" where
  "dd_get d t = (case d t of None \<Rightarrow> 0 | Some n \<Rightarrow> n)"

text \<open>The document-frequency loop: for every document, for every occurrence of a token
  in the query, count the document when it contains the token.\<close>

definition df_doc :: "string list \<Rightarrow> string list \<Rightarrow> (string \<rightharpoonup> nat) \<Rightarrow> (string \<rightharpoonup> nat)" where
  "df_doc query_tokens tokens df =
     fold (\<lambda>token d. if token \<in> set tokens then incr d token else d) query_tokens df"

definition doc_freq :: "string list \<Rightarrow> (uuid \<times> string list) list \<Rightarrow> (string \<rightharpoonup> nat)" where
  "doc_freq query_tokens doc_tokens =
     fold (\<lambda>(_, tokens) d. df_doc query_tokens tokens d) doc_tokens Map.empty"

definition idf_of :: "nat \<Rightarrow> nat \<Rightarrow> real" where
  "idf_of num_docs dft = ln ((real num_docs - real dft + 1/2) / (real dft + 1/2) + 1)"

definition term_freqs :: "string list \<Rightarrow> (string \<rightharpoonup> nat)" where
  "term_freqs tokens = fold (\<lambda>token d. incr d token) tokens Map.empty"

text \<open>One pass of the inner loop over the query tokens, for one document.\<close>

fun score_terms ::
  "bm25 \<Rightarrow> (string \<Rightarrow> real) \<Rightarrow> (string \<rightharpoonup> nat) \<Rightarrow> nat \<Rightarrow> real \<Rightarrow> string list \<Rightarrow> real
     \<Rightarrow> py_error + real" where
  "score_terms bm idf tf doc_length avg_doc_length [] score = Inr score"
| "score_terms bm idf tf doc_length avg_doc_length (query_token # rest) score =
     (case tf query_token of
        None \<Rightarrow> score_terms bm idf tf doc_length avg_doc_length rest score
      | Some term_freq \<Rightarrow>
          if avg_doc_length = 0 then Inl ZeroDivisionError
          else
            let numerator = idf query_token * real term_freq * (k1 bm + 1);
                denominator = real term_freq
                  + k1 bm * (1 - b bm + b bm * (real doc_length / avg_doc_length))
            in if denominator = 0 then Inl NonFinite
               else score_terms bm idf tf doc_length avg_doc_length rest
                      (score + numerator / denominator))"

fun score_docs ::
  "bm25 \<Rightarrow> (string \<Rightarrow> real) \<Rightarrow> (uuid \<Rightarrow> nat) \<Rightarrow> real \<Rightarrow> string list
     \<Rightarrow> (uuid \<times> string list) list \<Rightarrow> py_error + (uuid \<times> real) list" where
  "score_docs bm idf doc_lengths avg_doc_length query_tokens [] = Inr []"
| "score_docs bm idf doc_lengths avg_doc_length query_tokens ((doc_id, tokens) # rest) =
     (case score_terms bm idf (term_freqs tokens) (doc_lengths doc_id) avg_doc_length
             query_tokens 0 of
        Inl e \<Rightarrow> Inl e
      | Inr score \<Rightarrow>
          (case score_docs bm idf doc_lengths avg_doc_length query_tokens rest of
             Inl e \<Rightarrow> Inl e
           | Inr scores \<Rightarrow> Inr ((doc_id, score) # scores)))"

definition score_documents ::
  "bm25 \<Rightarrow> string \<Rightarrow> (uuid \<times> string) list \<Rightarrow> py_error + (uuid \<times> real) list" where
  "score_documents bm query documents =
     (if documents = [] then Inr []
      else
        let query_tokens = tokenize query in
        if query_tokens = [] then Inr (map (\<lambda>(doc_id, _). (doc_id, 0)) documents)
        else
          let doc_tokens = map (\<lambda>(doc_id, content). (doc_id, tokenize content)) documents;
              doc_lengths = map (\<lambda>(doc_id, tokens). (doc_id, length tokens)) doc_tokens;
              avg_doc_length = real (sum_list (dict_values doc_lengths))
                                 / real (length (dict_keys doc_lengths));
              df = doc_freq query_tokens doc_tokens;
              num_docs = length documents;
              idf = (\<lambda>token. idf_of num_docs (dd_get df token))
          in case score_docs bm idf (\<lambda>doc_id. the (dict_get doc_lengths doc_id))
                    avg_doc_length query_tokens doc_tokens of
               Inl e \<Rightarrow> Inl e
             | Inr scores \<Rightarrow> Inr (sort_desc snd scores))"

section \<open>Hybrid retriever (services/retrieval.py)\<close>

text \<open>The payload of a point of the vector index, with the keys the retriever reads;
  \<open>None\<close> is a missing key.\<close>

record point_payload =
  p_content :: "string option"
  p_chapter :: "string option"
  p_section :: "string option"
  p_page :: "int option"
  p_url :: "string option"

record point =
  point_id :: uuid
  payload :: point_payload

record retrieved_chunk =
  chunk_id :: uuid
  rc_content :: string
  score :: real
  rc_chapter :: string
  rc_section :: string
  page :: "int option"
  url :: string
  rc_metadata :: point_payload

text \<open>\<^verbatim>\<open>payload.get(key, "")\<close>\<close>

definition get_str :: "string option \<Rightarrow> string" where
  "get_str v = (case v of None \<Rightarrow> [] | Some x \<Rightarrow> x)"

definition chunk_of_point :: "point \<Rightarrow> uuid \<Rightarrow> real \<Rightarrow> retrieved_chunk" where
  "chunk_of_point pt cid sc =
     \<lparr>chunk_id = cid,
      rc_content = get_str (p_content (payload pt)),
      score = sc,
      rc_chapter = get_str (p_chapter (payload pt)),
      rc_section = get_str (p_section (payload pt)),
      page = p_page (payload pt),
      url = get_str (p_url (payload pt)),
      rc_metadata = payload pt\<rparr>"

text \<open>\<^verbatim>\<open>bm25_search\<close>, from the points that the scroll over the vector index returned (the
  candidate universe, already filtered by chapter and section). The retriever always
  scores with \<^verbatim>\<open>BM25()\<close>, the default parameters.\<close>

definition bm25_search :: "point list \<Rightarrow> string \<Rightarrow> int \<Rightarrow> py_error + retrieved_chunk list" where
  "bm25_search points query top_k =
     (if points = [] then Inr []
      else
        let documents = map (\<lambda>p. (point_id p, get_str (p_content (payload p)))) points in
        case score_documents default_bm25 query documents of
          Inl e \<Rightarrow> Inl e
        | Inr bm25_scores \<Rightarrow>
            let point_map = map (\<lambda>p. (point_id p, p)) points in
            Inr (map (\<lambda>(cid, sc). chunk_of_point (the (dict_get point_map cid)) cid sc)
                   (filter (\<lambda>(cid, sc). \<not> sc \<le> 0) (slice_to top_k bm25_scores))))"

subsection \<open>Reciprocal rank fusion over a store of chunk objects\<close>

text \<open>
  \<^verbatim>\<open>reciprocal_rank_fusion\<close> writes the score of the objects it was given, so the
  result lists hold references into a store of \<^verbatim>\<open>RetrievedChunk\<close> objects. The order in
  which Python iterates over the set \<^verbatim>\<open>all_chunk_ids\<close> depends on hashes: it is the
  parameter \<open>set_iter\<close>, applied to the elements of the set.
\<close>

type_synonym ref = nat
type_synonym heap = "ref \<Rightarrow> retrieved_chunk"

definition rank_map :: "heap \<Rightarrow> ref list \<Rightarrow> (uuid \<times> nat) list" where
  "rank_map h results = map (\<lambda>(idx, r). (chunk_id (h r), idx)) (enumerate 0 results)"

definition rrf_score ::
  "int \<Rightarrow> (uuid \<times> nat) list \<Rightarrow> (uuid \<times> nat) list \<Rightarrow> uuid \<Rightarrow> py_error + real" where
  "rrf_score k vector_ranks bm25_ranks cid =
     (case (case dict_get vector_ranks cid of
              None \<Rightarrow> Inr 0
            | Some rank \<Rightarrow>
                if k + int rank = 0 then Inl ZeroDivisionError
                else Inr (0 + 1 / real_of_int (k + int rank))) of
        Inl e \<Rightarrow> Inl e
      | Inr sc \<Rightarrow>
          (case dict_get bm25_ranks cid of
             None \<Rightarrow> Inr sc
           | Some rank \<Rightarrow>
               if k + int rank = 0 then Inl ZeroDivisionError
               else Inr (sc + 1 / real_of_int (k + int rank))))"

fun rrf_scores ::
  "int \<Rightarrow> (uuid \<times> nat) list \<Rightarrow> (uuid \<times> nat) list \<Rightarrow> uuid list
     \<Rightarrow> py_error + (uuid \<times> real) list" where
  "rrf_scores k vector_ranks bm25_ranks [] = Inr []"
| "rrf_scores k vector_ranks bm25_ranks (cid # rest) =
     (case rrf_score k vector_ranks bm25_ranks cid of
        Inl e \<Rightarrow> Inl e
      | Inr sc \<Rightarrow>
          (case rrf_scores k vector_ranks bm25_ranks rest of
             Inl e \<Rightarrow> Inl e
           | Inr scores \<Rightarrow> Inr ((cid, sc) # scores)))"

text \<open>The last loop: take the object of each id, overwrite its score, append it.\<close>

definition fuse_step ::
  "(uuid \<times> ref) list \<Rightarrow> (uuid \<times> real) list \<Rightarrow> uuid \<Rightarrow> heap \<times> ref list \<Rightarrow> heap \<times> ref list" where
  "fuse_step chunk_map scores cid st =
     (let h = fst st;
          chunk = the (dict_get chunk_map cid)
      in (h(chunk := (h chunk)\<lparr>score := the (dict_get scores cid)\<rparr>), snd st @ [chunk]))"

definition reciprocal_rank_fusion ::
  "(uuid list \<Rightarrow> uuid list) \<Rightarrow> heap \<Rightarrow> ref list \<Rightarrow> ref list \<Rightarrow> int
     \<Rightarrow> py_error + (heap \<times> ref list)" where
  "reciprocal_rank_fusion set_iter h vector_results bm25_results k =
     (let vector_ranks = rank_map h vector_results;
          bm25_ranks = rank_map h bm25_results;
          all_chunk_ids = set_iter (remdups (dict_keys vector_ranks @ dict_keys bm25_ranks));
          chunk_map = map (\<lambda>r. (chunk_id (h r), r)) (vector_results @ bm25_results)
      in case rrf_scores k vector_ranks bm25_ranks all_chunk_ids of
           Inl e \<Rightarrow> Inl e
         | Inr scores \<Rightarrow>
             let sorted_ids = sort_desc (\<lambda>x. the (dict_get scores x)) (dict_keys scores)
             in Inr (fold (fuse_step chunk_map scores) sorted_ids (h, [])))"

text \<open>The fusion formula as the specification words it: the sum, over the lists that
  contain the id, of \<open>1 / (k + rank)\<close>, the rank being the 0-based position.\<close>

fun position_from :: "nat \<Rightarrow> uuid list \<Rightarrow> uuid \<Rightarrow> nat option" where
  "position_from n [] x = None"
| "position_from n (y # ys) x = (if x = y then Some n else position_from (Suc n) ys x)"

definition rrf_term :: "int \<Rightarrow> uuid list \<Rightarrow> uuid \<Rightarrow> real" where
  "rrf_term k ids x =
     (case position_from 0 ids x of None \<Rightarrow> 0 | Some rank \<Rightarrow> 1 / real_of_int (k + int rank))"

definition rrf_spec :: "int \<Rightarrow> uuid list \<Rightarrow> uuid list \<Rightarrow> uuid \<Rightarrow> real" where
  "rrf_spec k vector_ids bm25_ids x = rrf_term k vector_ids x + rrf_term k bm25_ids x"

text \<open>The value that \<open>rrf_score\<close> computes when no denominator is zero.\<close>

definition rrf_value :: "int \<Rightarrow> (uuid \<times> nat) list \<Rightarrow> (uuid \<times> nat) list \<Rightarrow> uuid \<Rightarrow> real" where
  "rrf_value k vector_ranks bm25_ranks cid =
     (case dict_get vector_ranks cid of None \<Rightarrow> 0 | Some rank \<Rightarrow> 1 / real_of_int (k + int rank))
     + (case dict_get bm25_ranks cid of None \<Rightarrow> 0 | Some rank \<Rightarrow> 1 / real_of_int (k + int rank))"

section \<open>Embedding generation in batches (services/embeddings.py)\<close>

type_synonym embedding = "real list"

text \<open>The file cache of one model, as a map from the text to its embedding; a file that
  cannot be read is a miss.\<close>

type_synonym embedding_cache = "string \<rightharpoonup> embedding"

record embedding_generator =
  batch_size :: int
  cache :: "embedding_cache option"  \<comment> \<open>\<open>None\<close> when \<^verbatim>\<open>use_cache\<close> is false\<close>
  generate_with_retry :: "string list \<Rightarrow> py_error + embedding list"
    \<comment> \<open>the call of the provider with its retries: the vectors, or the error raised\<close>

type_synonym indexed_embeddings = "(nat \<times> embedding) list"

text \<open>The first loop: a cache hit is paired with its index, a miss is queued.\<close>

text \<open>\<^verbatim>\<open>self.cache.get(text, self.model)\<close> when the cache is enabled.\<close>

definition cache_get :: "embedding_generator \<Rightarrow> string \<Rightarrow> embedding option" where
  "cache_get g t = (case cache g of None \<Rightarrow> None | Some c \<Rightarrow> c t)"

definition check_cache ::
  "embedding_generator \<Rightarrow> nat \<times> string \<Rightarrow> indexed_embeddings \<times> nat list \<times> string list
     \<Rightarrow> indexed_embeddings \<times> nat list \<times> string list" where
  "check_cache g it st =
     (case st of (embeddings, uncached_indices, uncached_texts) \<Rightarrow>
        (case cache_get g (snd it) of
           Some cached \<Rightarrow> (embeddings @ [(fst it, cached)], uncached_indices, uncached_texts)
         | None \<Rightarrow> (embeddings, uncached_indices @ [fst it], uncached_texts @ [snd it])))"

text \<open>\<^verbatim>\<open>range(0, n, step)\<close>\<close>

definition py_range :: "nat \<Rightarrow> int \<Rightarrow> py_error + nat list" where
  "py_range n step =
     (if step = 0 then Inl ValueError
      else if step < 0 then Inr []
      else Inr (map (\<lambda>j. j * nat step) [0..<(n + nat step - 1) div nat step]))"

text \<open>The loop over the vectors of one batch, \<open>i\<close> being the position in the batch.\<close>

fun store_batch ::
  "nat list \<Rightarrow> string list \<Rightarrow> nat \<Rightarrow> nat \<Rightarrow> embedding list
     \<Rightarrow> indexed_embeddings \<times> embedding_cache option
     \<Rightarrow> py_error + (indexed_embeddings \<times> embedding_cache option)" where
  "store_batch uncached_indices batch_texts batch_start i [] st = Inr st"
| "store_batch uncached_indices batch_texts batch_start i (e # rest) st =
     (if length uncached_indices \<le> batch_start + i then Inl IndexError
      else
        let embeddings = fst st @ [(uncached_indices ! (batch_start + i), e)] in
        case snd st of
          None \<Rightarrow> store_batch uncached_indices batch_texts batch_start (Suc i) rest
                    (embeddings, None)
        | Some c \<Rightarrow>
            if length batch_texts \<le> i then Inl IndexError
            else store_batch uncached_indices batch_texts batch_start (Suc i) rest
                   (embeddings, Some (c(batch_texts ! i \<mapsto> e))))"

text \<open>The loop over the batches.\<close>

fun run_batches ::
  "embedding_generator \<Rightarrow> nat list \<Rightarrow> string list \<Rightarrow> nat list
     \<Rightarrow> indexed_embeddings \<times> embedding_cache option
     \<Rightarrow> py_error + (indexed_embeddings \<times> embedding_cache option)" where
  "run_batches g uncached_indices uncached_texts [] st = Inr st"
| "run_batches g uncached_indices uncached_texts (batch_start # starts) st =
     (let batch_end = min (int batch_start + batch_size g) (int (length uncached_texts));
          batch_texts = drop batch_start (slice_to batch_end uncached_texts)
      in case generate_with_retry g batch_texts of
           Inl e \<Rightarrow> Inl e
         | Inr batch_embeddings \<Rightarrow>
             (case store_batch uncached_indices batch_texts batch_start 0 batch_embeddings st of
                Inl e \<Rightarrow> Inl e
              | Inr st' \<Rightarrow> run_batches g uncached_indices uncached_texts starts st'))"

definition generate_embeddings_batch ::
  "embedding_generator \<Rightarrow> string list \<Rightarrow> py_error + (embedding_cache option \<times> embedding list)" where
  "generate_embeddings_batch g texts =
     (case fold (check_cache g) (enumerate 0 texts) ([], [], []) of
        (hits, uncached_indices, uncached_texts) \<Rightarrow>
          (case (if uncached_texts = [] then Inr (hits, cache g)
                 else (case py_range (length uncached_texts) (batch_size g) of
                         Inl e \<Rightarrow> Inl e
                       | Inr starts \<Rightarrow>
                           run_batches g uncached_indices uncached_texts starts (hits, cache g))) of
             Inl e \<Rightarrow> Inl e
           | Inr (embeddings, cache') \<Rightarrow> Inr (cache', map snd (sort_key fst embeddings))))"

section \<open>Semantic chunker (ingestion/chunker.py)\<close>

text \<open>
  The tokenizer comes from the library \<^verbatim>\<open>tiktoken\<close>: it is a parameter of the chunker,
  with the two calls the chunker makes.
\<close>

record tokenizer =
  encode :: "string \<Rightarrow> nat list"
  decode :: "nat list \<Rightarrow> string"

record code_block =
  cb_language :: string
  cb_content :: string
  cb_line_start :: int
  cb_line_end :: int

record doc_section =
  heading :: string
  level :: int
  content :: string
  line_start :: int
  line_end :: int
  code_blocks :: "code_block list"

record parsed_document =
  file_path :: string
  doc_metadata :: "(string \<times> string) list"
  sections :: "doc_section list"
  title :: string
  doc_chapter :: string
  description :: string
  doc_keywords :: "string list"
  url_path :: string

record chunk_metadata =
  md_chapter :: string
  md_title :: string
  md_section :: string
  md_heading_path :: string
  md_url :: string
  md_description :: string
  md_keywords :: "string list"
  md_chunk_index :: int
  md_source_file :: string
  md_line_start :: int
  md_line_end :: int

record content_chunk =
  chunk_text :: string
  chunk_metadata :: chunk_metadata
  token_count :: int
  heading_path :: "string list"
  source_file :: string
  chunk_line_start :: int
  chunk_line_end :: int

record chunker =
  min_chunk_size :: int
  max_chunk_size :: int
  overlap_size :: int
  tokenizer :: tokenizer

text \<open>The constructor. \<open>get_encoding\<close> is \<^verbatim>\<open>tiktoken.get_encoding\<close>: \<open>None\<close> when it
  raises. The three sizes are stored as they are given.\<close>

definition chunker_init ::
  "(string \<Rightarrow> tokenizer option) \<Rightarrow> int \<Rightarrow> int \<Rightarrow> int \<Rightarrow> string \<Rightarrow> py_error + chunker" where
  "chunker_init get_encoding min_size max_size overlap encoding_name =
     (case get_encoding encoding_name of
        Some t \<Rightarrow>
          Inr \<lparr>min_chunk_size = min_size, max_chunk_size = max_size, overlap_size = overlap,
               tokenizer = t\<rparr>
      | None \<Rightarrow>
          (case get_encoding ''cl100k_base'' of
             Some t \<Rightarrow>
               Inr \<lparr>min_chunk_size = min_size, max_chunk_size = max_size,
                    overlap_size = overlap, tokenizer = t\<rparr>
           | None \<Rightarrow> Inl ValueError))"

definition count_tokens :: "chunker \<Rightarrow> string \<Rightarrow> int" where
  "count_tokens c s = int (length (encode (tokenizer c) s))"

text \<open>The loop of \<^verbatim>\<open>_update_heading_stack\<close>: pop while the top is at the same or a
  deeper level.\<close>

function pop_headings :: "(int \<times> string) list \<Rightarrow> int \<Rightarrow> (int \<times> string) list" where
  "pop_headings heading_stack lvl =
     (if heading_stack \<noteq> [] \<and> lvl \<le> fst (last heading_stack)
      then pop_headings (butlast heading_stack) lvl
      else heading_stack)"
  by pat_completeness auto
termination
  by (relation "measure (\<lambda>(heading_stack, lvl). length heading_stack)") auto

declare pop_headings.simps [simp del]

definition update_heading_stack ::
  "(int \<times> string) list \<Rightarrow> doc_section \<Rightarrow> (int \<times> string) list" where
  "update_heading_stack heading_stack sec =
     pop_headings heading_stack (level sec) @ [(level sec, heading sec)]"

text \<open>\<^verbatim>\<open>sep.join(xs)\<close>\<close>

fun join :: "string \<Rightarrow> string list \<Rightarrow> string" where
  "join sep [] = []"
| "join sep [x] = x"
| "join sep (x # y # ys) = x @ sep @ join sep (y # ys)"

definition create_chunk ::
  "chunker \<Rightarrow> string \<Rightarrow> string list \<Rightarrow> parsed_document \<Rightarrow> doc_section \<Rightarrow> int
     \<Rightarrow> content_chunk" where
  "create_chunk c txt hpath document sec idx =
     \<lparr>chunk_text = txt,
      chunk_metadata =
        \<lparr>md_chapter = doc_chapter document,
         md_title = title document,
         md_section = heading sec,
         md_heading_path = join '' > '' hpath,
         md_url = url_path document,
         md_description = description document,
         md_keywords = doc_keywords document,
         md_chunk_index = idx,
         md_source_file = file_path document,
         md_line_start = line_start sec,
         md_line_end = line_end sec\<rparr>,
      token_count = count_tokens c txt,
      heading_path = hpath,
      source_file = file_path document,
      chunk_line_start = line_start sec,
      chunk_line_end = line_end sec\<rparr>"

text \<open>\<^verbatim>\<open>re.split(r'\n\s*\n', text)\<close>: a separator starts at a newline and runs to the last
  newline of the white space that follows it. The first argument is the piece read so
  far, reversed.\<close>

definition newline :: char where
  "newline = CHR 0x0A"

function re_split_blank :: "string \<Rightarrow> string \<Rightarrow> string list" where
  "re_split_blank cur [] = [rev cur]"
| "re_split_blank cur (ch # rest) =
     (let w = takeWhile isspace rest in
      if ch = newline \<and> newline \<in> set w
      then rev cur
             # re_split_blank []
                 (drop (length w - length (takeWhile (\<lambda>d. d \<noteq> newline) (rev w))) rest)
      else re_split_blank (ch # cur) rest)"
  by pat_completeness auto
termination
  by (relation "measure (\<lambda>(cur, s). length s)") auto

declare re_split_blank.simps [simp del]

definition split_into_paragraphs :: "string \<Rightarrow> string list" where
  "split_into_paragraphs s =
     map strip (filter (\<lambda>p. strip p \<noteq> []) (re_split_blank [] s))"

definition get_overlap_text :: "chunker \<Rightarrow> string \<Rightarrow> string" where
  "get_overlap_text c s =
     (let tokens = encode (tokenizer c) s in
      if int (length tokens) \<le> overlap_size c then s
      else decode (tokenizer c) (slice_from (- overlap_size c) tokens))"

text \<open>The state of the loop of \<^verbatim>\<open>_split_large_section\<close>.\<close>

record split_state =
  chunks :: "content_chunk list"
  current_chunk_text :: string
  current_tokens :: int
  chunk_index :: int

definition blank_line :: string where
  "blank_line = [newline, newline]"

definition split_step ::
  "chunker \<Rightarrow> doc_section \<Rightarrow> string list \<Rightarrow> parsed_document \<Rightarrow> string \<Rightarrow> split_state
     \<Rightarrow> split_state" where
  "split_step c sec hpath document para st =
     (let para_tokens = count_tokens c para in
      if max_chunk_size c < current_tokens st + para_tokens then
        if min_chunk_size c \<le> current_tokens st then
          let chunk = create_chunk c (strip (current_chunk_text st)) hpath document sec
                        (chunk_index st);
              new_text = get_overlap_text c (current_chunk_text st) @ blank_line @ para
          in \<lparr>chunks = chunks st @ [chunk],
              current_chunk_text = new_text,
              current_tokens = count_tokens c new_text,
              chunk_index = chunk_index st + 1\<rparr>
        else
          st\<lparr>current_chunk_text := current_chunk_text st @ blank_line @ para,
             current_tokens := current_tokens st + para_tokens\<rparr>
      else
        st\<lparr>current_chunk_text :=
               (if current_chunk_text st \<noteq> [] then current_chunk_text st @ blank_line @ para
                else para),
           current_tokens := current_tokens st + para_tokens\<rparr>)"

definition split_loop ::
  "chunker \<Rightarrow> doc_section \<Rightarrow> string list \<Rightarrow> parsed_document \<Rightarrow> string list \<Rightarrow> split_state" where
  "split_loop c sec hpath document paragraphs =
     fold (split_step c sec hpath document) paragraphs
       \<lparr>chunks = [], current_chunk_text = [], current_tokens = 0, chunk_index = 0\<rparr>"

definition split_large_section ::
  "chunker \<Rightarrow> doc_section \<Rightarrow> string list \<Rightarrow> parsed_document \<Rightarrow> content_chunk list" where
  "split_large_section c sec hpath document =
     (let st = split_loop c sec hpath document (split_into_paragraphs (content sec)) in
      if strip (current_chunk_text st) \<noteq> []
      then chunks st
             @ [create_chunk c (strip (current_chunk_text st)) hpath document sec (chunk_index st)]
      else chunks st)"

definition chunk_section ::
  "chunker \<Rightarrow> doc_section \<Rightarrow> (int \<times> string) list \<Rightarrow> parsed_document \<Rightarrow> content_chunk list" where
  "chunk_section c sec hpath document =
     (let heading_strings = map snd hpath;
          section_tokens = count_tokens c (content sec)
      in if section_tokens \<le> max_chunk_size c
         then [create_chunk c (content sec) heading_strings document sec 0]
         else split_large_section c sec heading_strings document)"

text \<open>The loop of \<^verbatim>\<open>chunk_document\<close>: the chunks so far and the heading stack.\<close>

definition document_step ::
  "chunker \<Rightarrow> parsed_document \<Rightarrow> doc_section
     \<Rightarrow> content_chunk list \<times> (int \<times> string) list \<Rightarrow> content_chunk list \<times> (int \<times> string) list" where
  "document_step c document sec st =
     (let heading_stack = update_heading_stack (snd st) sec
      in (fst st @ chunk_section c sec heading_stack document, heading_stack))"

definition chunk_document :: "chunker \<Rightarrow> parsed_document \<Rightarrow> content_chunk list" where
  "chunk_document c document = fst (fold (document_step c document) (sections document) ([], []))"

text \<open>The embedding that belongs to a text: the cached one on a hit, the one of the
  provider (which computes \<open>emb\<close> for each text) on a miss.\<close>

definition embedding_of :: "embedding_generator \<Rightarrow> (string \<Rightarrow> embedding) \<Rightarrow> string \<Rightarrow> embedding" where
  "embedding_of g emb t = (case cache_get g t of Some e \<Rightarrow> e | None \<Rightarrow> emb t)"

subsection \<open>Notions used to state the properties of the chunker\<close>


text \<open>The state of the loop of \<^verbatim>\<open>chunk_document\<close> after the first \<open>n\<close> sections: the
  heading stack and the chunks.\<close>

definition heading_stack_after :: "chunker \<Rightarrow> parsed_document \<Rightarrow> nat \<Rightarrow> (int \<times> string) list" where
  "heading_stack_after c document n =
     snd (fold (document_step c document) (take n (sections document)) ([], []))"

definition chunks_after :: "chunker \<Rightarrow> parsed_document \<Rightarrow> nat \<Rightarrow> content_chunk list" where
  "chunks_after c document n =
     fst (fold (document_step c document) (take n (sections document)) ([], []))"









section \<open>Sample inputs\<close>

definition chapter_two :: doc_section where
  "chapter_two = \<lparr>heading = ''Chapter 2'', level = 1, content = ''Content'',
                   line_start = 20, line_end = 30, code_blocks = []\<rparr>"

text \<open>A tokenizer with one token per character, and a loader that knows one encoding.\<close>

definition byte_tokenizer :: tokenizer where
  "byte_tokenizer = \<lparr>encode = map of_char, decode = map char_of\<rparr>"

definition toy_get_encoding :: "string \<Rightarrow> tokenizer option" where
  "toy_get_encoding encoding_name =
     (if encoding_name = ''cl100k_base'' then Some byte_tokenizer else None)"

definition cat_point :: point where
  "cat_point = \<lparr>point_id = 1,
     payload = \<lparr>p_content = Some ''cat'', p_chapter = Some ''Pets'', p_section = None,
                p_page = None, p_url = Some ''/docs/pets''\<rparr>\<rparr>"

definition dog_point :: point where
  "dog_point = \<lparr>point_id = 2,
     payload = \<lparr>p_content = Some ''dog'', p_chapter = Some ''Pets'', p_section = None,
                p_page = None, p_url = Some ''/docs/pets''\<rparr>\<rparr>"

text \<open>A generator with one cached text, batches of two, and a provider that answers
  every text with its length.\<close>

definition sample_embed :: "string \<Rightarrow> embedding" where
  "sample_embed t = [real (length t)]"

definition sample_generator :: embedding_generator where
  "sample_generator =
     \<lparr>batch_size = 2,
      cache = Some [''b'' \<mapsto> [1/2]],
      generate_with_retry = (\<lambda>ts. Inr (map sample_embed ts))\<rparr>"

text \<open>A store of six chunk objects: the vector results are the objects 0, 1, 2 (ids 10,
  11, 12), the lexical results are the objects 3, 4, 5 (ids 12, 10, 13).\<close>

definition sample_chunk :: "uuid \<Rightarrow> real \<Rightarrow> retrieved_chunk" where
  "sample_chunk cid sc =
     \<lparr>chunk_id = cid, rc_content = ''text'', score = sc, rc_chapter = ''Kinematics'',
      rc_section = ''Basics'', page = None, url = ''/docs/kinematics'',
      rc_metadata = \<lparr>p_content = Some ''text'', p_chapter = Some ''Kinematics'',
                      p_section = Some ''Basics'', p_page = None,
                      p_url = Some ''/docs/kinematics''\<rparr>\<rparr>"

definition sample_heap :: heap where
  "sample_heap r =
     (if r < 6 then sample_chunk ([10, 11, 12, 12, 10, 13] ! r) (1 / real (Suc r))
      else sample_chunk 0 0)"

definition byte_chunker :: "int \<Rightarrow> int \<Rightarrow> int \<Rightarrow> chunker" where
  "byte_chunker min_size max_size overlap =
     \<lparr>min_chunk_size = min_size, max_chunk_size = max_size, overlap_size = overlap,
      tokenizer = byte_tokenizer\<rparr>"

definition sample_section :: "string \<Rightarrow> string \<Rightarrow> doc_section" where
  "sample_section title_text body =
     \<lparr>heading = title_text, level = 1, content = body, line_start = 0, line_end = 10,
      code_blocks = []\<rparr>"

definition sample_document :: "doc_section list \<Rightarrow> parsed_document" where
  "sample_document secs =
     \<lparr>file_path = ''/docs/arm.mdx'', doc_metadata = [], sections = secs,
      title = ''Arm'', doc_chapter = ''Chapter 1'', description = ''About the arm'',
      doc_keywords = [], url_path = ''/docs/arm''\<rparr>"

text \<open>A chapter, a section inside it, and the next chapter.\<close>

definition nested_document :: parsed_document where
  "nested_document =
     sample_document
       [sample_section ''Chapter 1'' ''one'',
        (sample_section ''Section 1.1'' ''two'')\<lparr>level := 2\<rparr>,
        chapter_two]"



definition spaced_section :: doc_section where
  "spaced_section = sample_section ''Body'' ''aaaaa bc\<newline>\<newline>dddd''"




section \<open>Properties of the lexical scorer\<close>

lemma split_aux_no_word:
  "\<forall>c \<in> set s. isspace c \<Longrightarrow> split_aux [] s = []"
  by (induction s) auto

lemma isword_lower_char: "isword (lower_char c) = isword c"
  by (simp add: isword_def lower_char_def split: option.splits)

lemma tokenize_no_word:
  assumes "\<forall>c \<in> set query. \<not> isword c"
  shows "tokenize query = []"
proof -
  have "\<forall>c \<in> set (map (\<lambda>c. if isword c \<or> isspace c then c else CHR '' '') (lower query)).
          isspace c"
    using assms by (auto simp: lower_def isspace_def isword_lower_char)
  then show ?thesis
    unfolding tokenize_def Let_def split_def by (rule split_aux_no_word)
qed

text \<open>
  Claim C5. When the query has no token (it is empty, or made of punctuation and
  spaces only), scoring a non-empty corpus returns every document with score 0 in the
  order of the corpus, without raising; scoring an empty corpus returns the empty ranking.
\<close>

theorem empty_query_scores_zero:
  "(tokenize query = [] \<longrightarrow>
      score_documents bm query documents = Inr (map (\<lambda>d. (fst d, 0)) documents))
   \<and> ((\<forall>c \<in> set query. \<not> isword c) \<longrightarrow> tokenize query = [])
   \<and> score_documents bm query [] = Inr []"
proof (intro conjI impI)
  assume "tokenize query = []"
  then show "score_documents bm query documents = Inr (map (\<lambda>d. (fst d, 0)) documents)"
    by (simp add: score_documents_def case_prod_unfold)
next
  assume "\<forall>c \<in> set query. \<not> isword c"
  then show "tokenize query = []" by (rule tokenize_no_word)
next
  show "score_documents bm query [] = Inr []"
    by (simp add: score_documents_def)
qed

theorem empty_query_scores_zero_witness:
  "tokenize ''?! ,'' = []
   \<and> score_documents default_bm25 ''?! ,'' [(1, ''cat''), (2, ''dog'')] = Inr [(1, 0), (2, 0)]"
proof -
  have nw: "\<forall>c \<in> set ''?! ,''. \<not> isword c"
    by (simp add: isword_def)
  have tk: "tokenize ''?! ,'' = []"
    using empty_query_scores_zero [of "''?! ,''"] nw by blast
  have "score_documents default_bm25 ''?! ,'' [(1, ''cat''), (2, ''dog'')]
          = Inr (map (\<lambda>d. (fst d, 0)) [(1, ''cat''), (2, ''dog'')])"
    using empty_query_scores_zero [of "''?! ,''" default_bm25 "[(1, ''cat''), (2, ''dog'')]"] tk
    by blast
  with tk show ?thesis by simp
qed

subsection \<open>Repeated query terms\<close>

lemma idf_of_nonneg: "dft \<le> num_docs \<Longrightarrow> 0 \<le> idf_of num_docs dft"
proof -
  assume le: "dft \<le> num_docs"
  have "0 \<le> (real num_docs - real dft + 1/2) / (real dft + 1/2)"
    using le by (intro divide_nonneg_pos) simp_all
  then show ?thesis
    unfolding idf_of_def by (intro ln_ge_zero) simp
qed

text \<open>When the query repeats no term, the frequency of a term is at most the size of
  the corpus, and every score that is returned is non-negative.\<close>

lemma dd_get_incr: "dd_get (incr d x) t = dd_get d t + (if t = x then 1 else 0)"
  by (simp add: dd_get_def incr_def)

lemma df_doc_le:
  "distinct query_tokens \<Longrightarrow> dd_get (df_doc query_tokens tokens d) t \<le> dd_get d t + 1"
  and df_doc_other:
  "t \<notin> set query_tokens \<Longrightarrow> dd_get (df_doc query_tokens tokens d) t = dd_get d t"
proof -
  have other: "\<And>qs d. t \<notin> set qs \<Longrightarrow> dd_get (df_doc qs tokens d) t = dd_get d t"
  proof -
    fix qs d show "t \<notin> set qs \<Longrightarrow> dd_get (df_doc qs tokens d) t = dd_get d t"
      by (induction qs arbitrary: d) (auto simp: df_doc_def dd_get_incr)
  qed
  show "t \<notin> set query_tokens \<Longrightarrow> dd_get (df_doc query_tokens tokens d) t = dd_get d t"
    by (rule other)
  show "distinct query_tokens \<Longrightarrow> dd_get (df_doc query_tokens tokens d) t \<le> dd_get d t + 1"
  proof (induction query_tokens arbitrary: d)
    case Nil
    then show ?case by (simp add: df_doc_def)
  next
    case (Cons q qs)
    have unfold: "df_doc (q # qs) tokens d
                    = df_doc qs tokens (if q \<in> set tokens then incr d q else d)"
      by (simp add: df_doc_def)
    show ?case
    proof (cases "t = q")
      case True
      then have "t \<notin> set qs" using Cons.prems by simp
      then show ?thesis unfolding unfold by (simp add: other dd_get_incr)
    next
      case False
      have "dd_get (df_doc qs tokens (if q \<in> set tokens then incr d q else d)) t
              \<le> dd_get (if q \<in> set tokens then incr d q else d) t + 1"
        using Cons.IH Cons.prems by simp
      then show ?thesis unfolding unfold using False
        by (cases "q \<in> set tokens") (simp_all add: dd_get_incr)
    qed
  qed
qed

lemma doc_freq_fold_le:
  "distinct query_tokens \<Longrightarrow>
   dd_get (fold (\<lambda>(_, tokens) d. df_doc query_tokens tokens d) doc_tokens d0) t
     \<le> dd_get d0 t + length doc_tokens"
proof (induction doc_tokens arbitrary: d0)
  case Nil
  then show ?case by simp
next
  case (Cons dt dts)
  obtain i tokens where dt: "dt = (i, tokens)" by (cases dt)
  have "dd_get (fold (\<lambda>(_, tokens) d. df_doc query_tokens tokens d) dts
                 (df_doc query_tokens tokens d0)) t
          \<le> dd_get (df_doc query_tokens tokens d0) t + length dts"
    using Cons.IH Cons.prems by simp
  also have "\<dots> \<le> dd_get d0 t + 1 + length dts"
    using df_doc_le [OF Cons.prems, of tokens d0 t] by simp
  finally show ?case by (simp add: dt)
qed

lemma doc_freq_le:
  "distinct query_tokens \<Longrightarrow> dd_get (doc_freq query_tokens doc_tokens) t \<le> length doc_tokens"
  using doc_freq_fold_le [of query_tokens doc_tokens Map.empty t]
  by (simp add: doc_freq_def dd_get_def)

lemma score_terms_nonneg:
  assumes "0 \<le> k1 bm" and "0 \<le> b bm" and "b bm \<le> 1" and "\<forall>t. 0 \<le> idf t" and "0 \<le> avg"
  shows "0 \<le> sc \<Longrightarrow> score_terms bm idf tf dl avg qs sc = Inr s \<Longrightarrow> 0 \<le> s"
proof (induction qs arbitrary: sc)
  case Nil
  then show ?case by simp
next
  case (Cons q qs)
  show ?case
  proof (cases "tf q")
    case None
    then show ?thesis using Cons by simp
  next
    case (Some n)
    define num where "num = idf q * real n * (k1 bm + 1)"
    define den where "den = real n + k1 bm * (1 - b bm + b bm * (real dl / avg))"
    from Cons.prems(2) Some have ok: "avg \<noteq> 0" "den \<noteq> 0"
      and rest: "score_terms bm idf tf dl avg qs (sc + num / den) = Inr s"
      by (auto simp: Let_def num_def den_def split: if_splits)
    have "0 \<le> real dl / avg" using assms(5) by simp
    then have "0 \<le> b bm * (real dl / avg)" using assms(2) by (rule mult_nonneg_nonneg [rotated])
    then have "0 \<le> 1 - b bm + b bm * (real dl / avg)" using assms(3) by simp
    then have "0 \<le> k1 bm * (1 - b bm + b bm * (real dl / avg))"
      using assms(1) by (rule mult_nonneg_nonneg [rotated])
    then have den: "0 \<le> den" by (simp add: den_def)
    have "0 \<le> idf q * real n" using assms(4) by simp
    moreover have "0 \<le> k1 bm + 1" using assms(1) by simp
    ultimately have "0 \<le> num" unfolding num_def by (rule mult_nonneg_nonneg)
    then have "0 \<le> num / den" using den by simp
    then have "0 \<le> sc + num / den" using Cons.prems(1) by simp
    then show ?thesis using Cons.IH rest by blast
  qed
qed

lemma score_docs_nonneg:
  assumes "0 \<le> k1 bm" and "0 \<le> b bm" and "b bm \<le> 1" and "\<forall>t. 0 \<le> idf t" and "0 \<le> avg"
  shows "score_docs bm idf dls avg qs dts = Inr scores \<Longrightarrow> \<forall>x \<in> set scores. 0 \<le> snd x"
proof (induction dts arbitrary: scores)
  case Nil
  then show ?case by simp
next
  case (Cons dt dts)
  obtain i tokens where dt: "dt = (i, tokens)" by (cases dt)
  from Cons.prems obtain s rest where
    s: "score_terms bm idf (term_freqs tokens) (dls i) avg qs 0 = Inr s"
    and r: "score_docs bm idf dls avg qs dts = Inr rest"
    and sc: "scores = (i, s) # rest"
    by (auto simp: dt split: sum.splits)
  have "0 \<le> s" using score_terms_nonneg [OF assms _ s] by simp
  then show ?case using Cons.IH [OF r] sc by simp
qed

lemma scores_nonneg_without_repeated_terms:
  assumes bm: "0 \<le> k1 bm" "0 \<le> b bm" "b bm \<le> 1"
    and d: "distinct (tokenize query)"
    and res: "score_documents bm query documents = Inr scores"
  shows "\<forall>x \<in> set scores. 0 \<le> snd x"
proof (cases "documents = [] \<or> tokenize query = []")
  case True
  then show ?thesis using res by (auto simp: score_documents_def split: if_splits)
next
  case False
  define doc_tokens where "doc_tokens = map (\<lambda>(doc_id, content). (doc_id, tokenize content)) documents"
  define doc_lengths where "doc_lengths = map (\<lambda>(doc_id, tokens). (doc_id, length tokens)) doc_tokens"
  define avg where "avg = real (sum_list (dict_values doc_lengths)) / real (length (dict_keys doc_lengths))"
  define idf where "idf = (\<lambda>token. idf_of (length documents)
                                (dd_get (doc_freq (tokenize query) doc_tokens) token))"
  from res False obtain raw where
    raw: "score_docs bm idf (\<lambda>doc_id. the (dict_get doc_lengths doc_id)) avg (tokenize query)
            doc_tokens = Inr raw"
    and sc: "scores = sort_desc snd raw"
    by (auto simp: score_documents_def Let_def doc_tokens_def doc_lengths_def avg_def idf_def
        split: sum.splits)
  have "length doc_tokens = length documents" by (simp add: doc_tokens_def)
  then have "\<forall>t. 0 \<le> idf t"
    unfolding idf_def using doc_freq_le [OF d, of doc_tokens] by (auto intro!: idf_of_nonneg)
  moreover have "0 \<le> avg" by (simp add: avg_def)
  ultimately have "\<forall>x \<in> set raw. 0 \<le> snd x"
    using score_docs_nonneg [OF bm _ _ raw] by blast
  then show ?thesis by (simp add: sc sort_desc_def)
qed

lemma tokenize_cat_cat: "tokenize ''cat cat'' = [''cat'', ''cat'']"
  by code_simp

lemma tokenize_cat: "tokenize ''cat'' = [''cat'']"
  by code_simp

text \<open>
  Claim C4 (the code at a failing input). The query \<open>cat cat\<close> repeats a term; the
  document-frequency loop counts the only document of the corpus once per occurrence of
  the term in the query, so that the frequency is 2 for a corpus of size 1, the inverse
  document frequency is \<open>ln (4/5)\<close>, and the score of the document is negative.
\<close>

theorem repeated_query_term_negative_score:
  "score_documents default_bm25 ''cat cat'' [(1, ''cat'')] = Inr [(1, 2 * ln (4/5))]
   \<and> 2 * ln (4/5 :: real) < 0
   \<and> dd_get (doc_freq (tokenize ''cat cat'') [(1, tokenize ''cat'')]) ''cat'' = 2"
proof (intro conjI)
  show "score_documents default_bm25 ''cat cat'' [(1, ''cat'')] = Inr [(1, 2 * ln (4/5))]"
    by (simp add: score_documents_def tokenize_cat_cat tokenize_cat Let_def dict_values_def
        dict_keys_def dict_get_def doc_freq_def df_doc_def incr_def dd_get_def idf_of_def
        term_freqs_def default_bm25_def sort_desc_def)
  show "2 * ln (4/5 :: real) < 0" by simp
  show "dd_get (doc_freq (tokenize ''cat cat'') [(1, tokenize ''cat'')]) ''cat'' = 2"
    by (simp add: tokenize_cat_cat tokenize_cat doc_freq_def df_doc_def incr_def dd_get_def)
qed

section \<open>The heading path\<close>

lemma sorted_snoc_parts:
  assumes "sorted_wrt (<) (map fst s)" and "s \<noteq> []"
  shows "sorted_wrt (<) (map fst (butlast s))"
    and "\<forall>e \<in> set (butlast s). fst e < fst (last s)"
proof -
  have s: "s = butlast s @ [last s]" using assms(2) by simp
  have "sorted_wrt (<) (map fst (butlast s @ [last s]))"
    using assms(1) s by simp
  then have "sorted_wrt (<) (map fst (butlast s)) \<and> (\<forall>e \<in> set (butlast s). fst e < fst (last s))"
    by (simp add: sorted_wrt_append)
  then show "sorted_wrt (<) (map fst (butlast s))"
    and "\<forall>e \<in> set (butlast s). fst e < fst (last s)" by simp_all
qed

lemma pop_headings_filter:
  "sorted_wrt (<) (map fst s) \<Longrightarrow> pop_headings s l = filter (\<lambda>e. fst e < l) s"
proof (induction s l rule: pop_headings.induct)
  case (1 s l)
  show ?case
  proof (cases "s \<noteq> [] \<and> l \<le> fst (last s)")
    case True
    then have s: "s = butlast s @ [last s]" by simp
    have "sorted_wrt (<) (map fst (butlast s))"
      using "1.prems" True by (simp add: sorted_snoc_parts(1))
    then have ih: "pop_headings (butlast s) l = filter (\<lambda>e. fst e < l) (butlast s)"
      using "1.IH" True by blast
    have "filter (\<lambda>e. fst e < l) (butlast s @ [last s])
            = filter (\<lambda>e. fst e < l) (butlast s) @ filter (\<lambda>e. fst e < l) [last s]"
      by (rule filter_append)
    also have "filter (\<lambda>e. fst e < l) [last s] = []"
      using True by simp
    finally have "filter (\<lambda>e. fst e < l) (butlast s @ [last s])
            = filter (\<lambda>e. fst e < l) (butlast s)"
      by (simp only: append_Nil2)
    then have fl: "filter (\<lambda>e. fst e < l) s = filter (\<lambda>e. fst e < l) (butlast s)"
      by (simp only: append_butlast_last_id [OF conjunct1 [OF True]])
    have "pop_headings s l = pop_headings (butlast s) l"
      using True by (subst pop_headings.simps) simp
    then show ?thesis using ih fl by simp
  next
    case False
    show ?thesis
    proof (cases "s = []")
      case True
      then show ?thesis by (subst pop_headings.simps) simp
    next
      case nonempty: False
      with False have lt: "fst (last s) < l" by simp
      have s: "s = butlast s @ [last s]" using nonempty by simp
      have "\<forall>e \<in> set (butlast s). fst e < fst (last s)"
        using "1.prems" nonempty by (simp add: sorted_snoc_parts(2))
      then have "\<forall>e \<in> set (butlast s @ [last s]). fst e < l"
        using lt by auto
      then have "\<forall>e \<in> set s. fst e < l" using s by simp
      then have "filter (\<lambda>e. fst e < l) s = s"
        by (simp add: filter_id_conv)
      moreover have "pop_headings s l = s"
        using nonempty lt by (subst pop_headings.simps) simp
      ultimately show ?thesis by simp
    qed
  qed
qed

lemma update_heading_stack_filter:
  assumes "sorted_wrt (<) (map fst s)"
  shows "update_heading_stack s sec = filter (\<lambda>e. fst e < level sec) s @ [(level sec, heading sec)]"
  using assms by (simp add: update_heading_stack_def pop_headings_filter)

lemma update_heading_stack_sorted:
  assumes "sorted_wrt (<) (map fst s)"
  shows "sorted_wrt (<) (map fst (update_heading_stack s sec))"
proof -
  have "sorted_wrt (<) (map fst (filter (\<lambda>e. fst e < level sec) s))"
    using assms by (simp add: sorted_wrt_map sorted_wrt_filter)
  then show ?thesis
    using assms by (auto simp: update_heading_stack_filter sorted_wrt_append)
qed

lemma snd_fold_document_step:
  "snd (fold (document_step c d) secs st) = fold (\<lambda>sec s. update_heading_stack s sec) secs (snd st)"
  by (induction secs arbitrary: st) (simp_all add: document_step_def Let_def)

lemma fold_update_sorted:
  "sorted_wrt (<) (map fst s) \<Longrightarrow>
   sorted_wrt (<) (map fst (fold (\<lambda>sec s. update_heading_stack s sec) secs s))"
  by (induction secs arbitrary: s) (simp_all add: update_heading_stack_sorted)


lemma split_step_heading_path:
  assumes "\<forall>ch \<in> set (chunks st). heading_path ch = hp"
  shows "\<forall>ch \<in> set (chunks (split_step c sec hp d para st)). heading_path ch = hp"
  using assms by (auto simp: split_step_def Let_def create_chunk_def)

lemma fold_split_step_heading_path:
  "\<forall>ch \<in> set (chunks st). heading_path ch = hp \<Longrightarrow>
   \<forall>ch \<in> set (chunks (fold (split_step c sec hp d) paras st)). heading_path ch = hp"
proof (induction paras arbitrary: st)
  case Nil
  then show ?case by simp
next
  case (Cons p ps)
  have "\<forall>ch \<in> set (chunks (split_step c sec hp d p st)). heading_path ch = hp"
    using Cons.prems by (rule split_step_heading_path)
  then show ?case using Cons.IH by simp
qed

lemma split_large_section_heading_path:
  "ch \<in> set (split_large_section c sec hp d) \<Longrightarrow> heading_path ch = hp"
  using fold_split_step_heading_path
    [of "\<lparr>chunks = [], current_chunk_text = [], current_tokens = 0, chunk_index = 0\<rparr>" hp c sec d
       "split_into_paragraphs (content sec)"]
  by (auto simp: split_large_section_def split_loop_def Let_def create_chunk_def split: if_splits)

lemma chunk_section_heading_path:
  "ch \<in> set (chunk_section c sec stack d) \<Longrightarrow> heading_path ch = map snd stack"
  by (auto simp: chunk_section_def Let_def create_chunk_def split_large_section_heading_path
      split: if_splits)

lemma loop_after_Suc:
  assumes "n < length (sections document)"
  shows "fold (document_step c document) (take (Suc n) (sections document)) ([], [])
         = document_step c document (sections document ! n)
             (fold (document_step c document) (take n (sections document)) ([], []))"
  using assms by (simp add: take_Suc_conv_app_nth)

text \<open>
  Claim C8. The loop of \<^verbatim>\<open>chunk_document\<close> starts from the empty path. The path it
  holds after any number of sections is strictly increasing in level. Processing the
  next section, of level \<open>L\<close>, replaces that path by its entries of level below \<open>L\<close>
  followed by \<open>(L, heading)\<close>, and the headings of the new path are the heading path of
  every chunk of that section. The same replacement is what \<^verbatim>\<open>_update_heading_stack\<close>
  does on any strictly increasing path.
\<close>

theorem heading_path_strictly_increasing:
  "heading_stack_after c document 0 = []
   \<and> sorted_wrt (<) (map fst (heading_stack_after c document k))
   \<and> (n < length (sections document) \<longrightarrow>
        heading_stack_after c document (Suc n)
          = filter (\<lambda>e. fst e < level (sections document ! n)) (heading_stack_after c document n)
              @ [(level (sections document ! n), heading (sections document ! n))]
        \<and> chunks_after c document (Suc n)
            = chunks_after c document n
                @ chunk_section c (sections document ! n) (heading_stack_after c document (Suc n))
                    document
        \<and> (\<forall>ch \<in> set (chunk_section c (sections document ! n)
                         (heading_stack_after c document (Suc n)) document).
              heading_path ch = map snd (heading_stack_after c document (Suc n))))
   \<and> chunk_document c document = chunks_after c document (length (sections document))
   \<and> (sorted_wrt (<) (map fst heading_stack) \<longrightarrow>
        update_heading_stack heading_stack sec
          = filter (\<lambda>e. fst e < level sec) heading_stack @ [(level sec, heading sec)]
        \<and> sorted_wrt (<) (map fst (update_heading_stack heading_stack sec)))"
proof (intro conjI impI)
  show "heading_stack_after c document 0 = []"
    by (simp add: heading_stack_after_def)
next
  show "sorted_wrt (<) (map fst (heading_stack_after c document k))"
    by (simp add: heading_stack_after_def snd_fold_document_step fold_update_sorted)
next
  assume n: "n < length (sections document)"
  have s: "sorted_wrt (<) (map fst (heading_stack_after c document n))"
    by (simp add: heading_stack_after_def snd_fold_document_step fold_update_sorted)
  have "heading_stack_after c document (Suc n)
          = update_heading_stack (heading_stack_after c document n) (sections document ! n)"
    unfolding heading_stack_after_def loop_after_Suc [OF n]
    by (simp add: document_step_def Let_def)
  then show "heading_stack_after c document (Suc n)
          = filter (\<lambda>e. fst e < level (sections document ! n)) (heading_stack_after c document n)
              @ [(level (sections document ! n), heading (sections document ! n))]"
    using update_heading_stack_filter [OF s] by simp
next
  assume n: "n < length (sections document)"
  show "chunks_after c document (Suc n)
            = chunks_after c document n
                @ chunk_section c (sections document ! n) (heading_stack_after c document (Suc n))
                    document"
    unfolding heading_stack_after_def chunks_after_def loop_after_Suc [OF n]
    by (simp add: document_step_def Let_def)
next
  show "\<forall>ch \<in> set (chunk_section c (sections document ! n)
                         (heading_stack_after c document (Suc n)) document).
              heading_path ch = map snd (heading_stack_after c document (Suc n))"
    using chunk_section_heading_path by blast
next
  show "chunk_document c document = chunks_after c document (length (sections document))"
    by (simp add: chunk_document_def chunks_after_def)
next
  assume "sorted_wrt (<) (map fst heading_stack)"
  then show "update_heading_stack heading_stack sec
        = filter (\<lambda>e. fst e < level sec) heading_stack @ [(level sec, heading sec)]"
    by (rule update_heading_stack_filter)
next
  assume "sorted_wrt (<) (map fst heading_stack)"
  then show "sorted_wrt (<) (map fst (update_heading_stack heading_stack sec))"
    by (rule update_heading_stack_sorted)
qed

lemma nested_document_stack:
  "heading_stack_after (byte_chunker 8 10 2) nested_document 2
     = [(1, ''Chapter 1''), (2, ''Section 1.1'')]"
  by code_simp

lemma nested_document_paths:
  "map heading_path (chunk_document (byte_chunker 8 10 2) nested_document)
     = [[''Chapter 1''], [''Chapter 1'', ''Section 1.1''], [''Chapter 2'']]"
  by code_simp

theorem heading_path_strictly_increasing_witness:
  "length (sections nested_document) = 3
   \<and> sections nested_document ! 2 = chapter_two
   \<and> heading_stack_after (byte_chunker 8 10 2) nested_document 2
       = [(1, ''Chapter 1''), (2, ''Section 1.1'')]
   \<and> heading_stack_after (byte_chunker 8 10 2) nested_document 3 = [(1, ''Chapter 2'')]
   \<and> map heading_path (chunk_document (byte_chunker 8 10 2) nested_document)
       = [[''Chapter 1''], [''Chapter 1'', ''Section 1.1''], [''Chapter 2'']]
   \<and> update_heading_stack [(1, ''Chapter 1''), (2, ''Section 1.1'')] chapter_two
       = [(1, ''Chapter 2'')]"
proof -
  have len: "length (sections nested_document) = 3"
    and sec: "sections nested_document ! 2 = chapter_two"
    by (simp_all add: nested_document_def sample_document_def)
  have srt: "sorted_wrt (<) (map fst [(1::int, ''Chapter 1''), (2, ''Section 1.1'')])" by simp
  note t = heading_path_strictly_increasing
    [of "byte_chunker 8 10 2" nested_document 0 2 "[(1, ''Chapter 1''), (2, ''Section 1.1'')]"
       chapter_two]
  have "heading_stack_after (byte_chunker 8 10 2) nested_document (Suc 2)
          = filter (\<lambda>e. fst e < level (sections nested_document ! 2))
              (heading_stack_after (byte_chunker 8 10 2) nested_document 2)
              @ [(level (sections nested_document ! 2), heading (sections nested_document ! 2))]"
    using t len by simp
  then have "heading_stack_after (byte_chunker 8 10 2) nested_document (Suc 2)
          = filter (\<lambda>e. fst e < level chapter_two) [(1, ''Chapter 1''), (2, ''Section 1.1'')]
              @ [(level chapter_two, heading chapter_two)]"
    by (simp only: sec nested_document_stack)
  then have three: "heading_stack_after (byte_chunker 8 10 2) nested_document 3 = [(1, ''Chapter 2'')]"
    by (simp add: chapter_two_def)
  have "update_heading_stack [(1, ''Chapter 1''), (2, ''Section 1.1'')] chapter_two
      = filter (\<lambda>e. fst e < level chapter_two) [(1, ''Chapter 1''), (2, ''Section 1.1'')]
         @ [(level chapter_two, heading chapter_two)]"
    using t srt by blast
  then have upd: "update_heading_stack [(1, ''Chapter 1''), (2, ''Section 1.1'')] chapter_two
       = [(1, ''Chapter 2'')]"
    by (simp add: chapter_two_def)
  show ?thesis
    using len sec nested_document_stack three nested_document_paths upd by simp
qed

section \<open>The constructor of the chunker\<close>

text \<open>
  Claim C3 (as stated, refuted). With a minimum of 600 above the maximum of 400 the
  constructor returns a chunker that holds these sizes; it raises nothing.
\<close>

theorem constructor_accepts_invalid_bounds:
  "(400::int) \<le> 600
   \<and> chunker_init toy_get_encoding 600 400 50 ''cl100k_base''
       = Inr \<lparr>min_chunk_size = 600, max_chunk_size = 400, overlap_size = 50,
              tokenizer = byte_tokenizer\<rparr>"
  by (simp add: chunker_init_def toy_get_encoding_def)

text \<open>
  Claim C3 (amended). The constructor checks no bound: a chunker it returns holds the
  three sizes as they were given, it returns one whenever the named encoding or the
  fallback \<open>cl100k_base\<close> loads, and it fails only when neither loads.
\<close>

theorem constructor_stores_any_bounds:
  "(chunker_init get_encoding min_size max_size overlap encoding_name = Inr c \<longrightarrow>
      min_chunk_size c = min_size \<and> max_chunk_size c = max_size \<and> overlap_size c = overlap)
   \<and> (get_encoding encoding_name \<noteq> None \<or> get_encoding ''cl100k_base'' \<noteq> None \<longrightarrow>
        (\<exists>c. chunker_init get_encoding min_size max_size overlap encoding_name = Inr c))
   \<and> (get_encoding encoding_name = None \<and> get_encoding ''cl100k_base'' = None \<longrightarrow>
        chunker_init get_encoding min_size max_size overlap encoding_name = Inl ValueError)"
  by (auto simp: chunker_init_def split: option.splits)

theorem constructor_stores_any_bounds_witness:
  "\<exists>c. chunker_init toy_get_encoding 400 600 400 ''gpt2'' = Inr c
       \<and> min_chunk_size c = 400 \<and> max_chunk_size c = 600 \<and> overlap_size c = 400"
proof -
  have "toy_get_encoding ''gpt2'' \<noteq> None \<or> toy_get_encoding ''cl100k_base'' \<noteq> None"
    by (simp add: toy_get_encoding_def)
  then obtain c where c: "chunker_init toy_get_encoding 400 600 400 ''gpt2'' = Inr c"
    using constructor_stores_any_bounds [of toy_get_encoding 400 600 400 "''gpt2''"] by blast
  then have "min_chunk_size c = 400 \<and> max_chunk_size c = 600 \<and> overlap_size c = 400"
    using constructor_stores_any_bounds [of toy_get_encoding 400 600 400 "''gpt2''" c] by blast
  with c show ?thesis by blast
qed

section \<open>The lexical path\<close>

lemma score_documents_sorted:
  assumes "score_documents bm query documents = Inr scores"
  shows "sorted_wrt (\<lambda>x y. snd y \<le> snd x) scores"
proof -
  have z: "sorted_wrt (\<lambda>x y. snd y \<le> snd x) (map (\<lambda>d. (fst d, 0::real)) documents)"
    by (simp add: sorted_wrt_map sorted_wrt_iff_nth_less)
  have s: "\<And>xs::(uuid \<times> real) list. sorted_wrt (\<lambda>x y. snd y \<le> snd x) (sort_desc snd xs)"
  proof -
    fix xs :: "(uuid \<times> real) list"
    have "sorted (map (\<lambda>x. - snd x) (sort_key (\<lambda>x. - snd x) xs))"
      by (rule sorted_sort_key)
    then show "sorted_wrt (\<lambda>x y. snd y \<le> snd x) (sort_desc snd xs)"
      by (simp add: sort_desc_def sorted_map)
  qed
  show ?thesis
    using assms z s
    by (auto simp: score_documents_def Let_def case_prod_unfold split: if_splits sum.splits)
qed

lemma slice_to_length: "0 \<le> n \<Longrightarrow> int (length (slice_to n xs)) \<le> n"
  by (simp add: slice_to_def)

lemma sorted_wrt_slice_to: "sorted_wrt P xs \<Longrightarrow> sorted_wrt P (slice_to n xs)"
  by (simp add: slice_to_def sorted_wrt_take)

text \<open>
  The scorer raises only when it divides by an average document length of zero. When the
  ids of the documents are distinct, a document that contains a query term makes the
  average positive, so the scorer and the lexical path return.
\<close>

lemma dict_get_distinct: "distinct (map fst kvs) \<Longrightarrow> dict_get kvs = map_of kvs"
proof -
  assume d: "distinct (map fst kvs)"
  then have "distinct (map fst (rev kvs))" by (simp add: rev_map [symmetric])
  then have "map_of (rev kvs) = map_of kvs"
    using d by (simp add: map_of_inject_set)
  then show ?thesis by (auto simp: dict_get_def)
qed

lemma dict_keys_distinct: "distinct (map fst kvs) \<Longrightarrow> dict_keys kvs = map fst kvs"
  by (simp add: dict_keys_def distinct_remdups_id)

lemma set_dict_keys: "set (dict_keys kvs) = fst ` set kvs"
  by (simp add: dict_keys_def)

lemma dict_get_None: "dict_get kvs x = None \<longleftrightarrow> x \<notin> fst ` set kvs"
  by (simp add: dict_get_def map_of_eq_None_iff)

lemma dict_get_SomeD: "dict_get kvs x = Some y \<Longrightarrow> (x, y) \<in> set kvs"
  using map_of_SomeD [of "rev kvs" x y] by (simp add: dict_get_def)

lemma dict_values_distinct:
  assumes "distinct (map fst kvs)"
  shows "dict_values kvs = map snd kvs"
proof -
  have "\<forall>kv \<in> set kvs. the (map_of kvs (fst kv)) = snd kv"
    using assms by auto
  then have "map (\<lambda>kv. the (map_of kvs (fst kv))) kvs = map snd kvs"
    by (intro map_cong refl) simp
  then show ?thesis
    by (simp add: dict_values_def dict_keys_distinct [OF assms] dict_get_distinct [OF assms]
        comp_def)
qed

lemma term_freqs_fold_dom:
  "fold (\<lambda>token d. incr d token) tokens d0 q = Some n \<Longrightarrow> q \<in> set tokens \<or> d0 q = Some n"
  by (induction tokens arbitrary: d0) (fastforce simp: incr_def split: if_splits)+

lemma term_freqs_Some: "term_freqs tokens q = Some n \<Longrightarrow> q \<in> set tokens"
  using term_freqs_fold_dom [of tokens Map.empty q n] by (simp add: term_freqs_def)

lemma term_freqs_fold_pos:
  "\<forall>q n. d0 q = Some n \<longrightarrow> 0 < n \<Longrightarrow>
   fold (\<lambda>token d. incr d token) tokens d0 q = Some n \<Longrightarrow> 0 < n"
proof (induction tokens arbitrary: d0)
  case Nil
  then show ?case by simp
next
  case (Cons t ts)
  have "\<forall>q n. incr d0 t q = Some n \<longrightarrow> 0 < n"
    using Cons.prems(1) by (auto simp: incr_def)
  then show ?case using Cons.IH [of "incr d0 t"] Cons.prems(2) by simp
qed

lemma term_freqs_pos: "term_freqs tokens q = Some n \<Longrightarrow> 0 < n"
  using term_freqs_fold_pos [of Map.empty tokens q n] by (simp add: term_freqs_def)

lemma score_terms_returns:
  assumes "0 \<le> k1 bm" and "0 \<le> b bm" and "b bm \<le> 1"
    and avg: "(\<exists>q. tf q \<noteq> None) \<longrightarrow> 0 < avg"
    and pos: "\<forall>q n. tf q = Some n \<longrightarrow> 0 < n"
  shows "\<exists>s. score_terms bm idf tf dl avg qs sc = Inr s"
proof (induction qs arbitrary: sc)
  case Nil
  then show ?case by simp
next
  case (Cons q qs)
  show ?case
  proof (cases "tf q")
    case None
    then show ?thesis using Cons.IH by simp
  next
    case (Some n)
    then have a: "0 < avg" and n: "0 < n" using avg pos by auto
    have "0 \<le> real dl / avg" using a by simp
    then have "0 \<le> b bm * (real dl / avg)" using assms(2) by (rule mult_nonneg_nonneg [rotated])
    then have "0 \<le> 1 - b bm + b bm * (real dl / avg)" using assms(3) by simp
    then have "0 \<le> k1 bm * (1 - b bm + b bm * (real dl / avg))"
      using assms(1) by (rule mult_nonneg_nonneg [rotated])
    moreover have "0 < real n" using n by simp
    ultimately have "real n + k1 bm * (1 - b bm + b bm * (real dl / avg)) \<noteq> 0" by linarith
    then show ?thesis using Some a Cons.IH by (simp add: Let_def)
  qed
qed

lemma score_docs_returns:
  assumes "0 \<le> k1 bm" and "0 \<le> b bm" and "b bm \<le> 1"
  shows "\<forall>dt \<in> set dts. snd dt \<noteq> [] \<longrightarrow> 0 < avg \<Longrightarrow>
         \<exists>scores. score_docs bm idf dls avg qs dts = Inr scores"
proof (induction dts)
  case Nil
  then show ?case by simp
next
  case (Cons dt dts)
  obtain i tokens where dt: "dt = (i, tokens)" by (cases dt)
  have "(\<exists>q. term_freqs tokens q \<noteq> None) \<longrightarrow> 0 < avg"
    using Cons.prems dt term_freqs_Some by fastforce
  moreover have "\<forall>q n. term_freqs tokens q = Some n \<longrightarrow> 0 < n"
    using term_freqs_pos by blast
  ultimately obtain s where
    s: "score_terms bm idf (term_freqs tokens) (dls i) avg qs 0 = Inr s"
    using score_terms_returns [OF assms] by blast
  obtain rest where "score_docs bm idf dls avg qs dts = Inr rest"
    using Cons by auto
  then show ?case using s by (simp add: dt)
qed

lemma score_documents_returns:
  assumes bm: "0 \<le> k1 bm" "0 \<le> b bm" "b bm \<le> 1"
    and d: "distinct (map fst documents)"
  shows "\<exists>scores. score_documents bm query documents = Inr scores"
proof (cases "documents = [] \<or> tokenize query = []")
  case True
  then show ?thesis by (auto simp: score_documents_def)
next
  case False
  define doc_tokens where "doc_tokens = map (\<lambda>(doc_id, content). (doc_id, tokenize content)) documents"
  define doc_lengths where "doc_lengths = map (\<lambda>(doc_id, tokens). (doc_id, length tokens)) doc_tokens"
  define avg where "avg = real (sum_list (dict_values doc_lengths)) / real (length (dict_keys doc_lengths))"
  have keys: "map fst doc_lengths = map fst documents"
    by (simp add: doc_lengths_def doc_tokens_def case_prod_unfold comp_def)
  then have dl: "distinct (map fst doc_lengths)" using d by simp
  have "dict_values doc_lengths = map snd doc_lengths"
    using dl by (rule dict_values_distinct)
  then have vals: "dict_values doc_lengths = map (\<lambda>dt. length (snd dt)) doc_tokens"
    by (simp add: doc_lengths_def case_prod_unfold comp_def)
  have "dict_keys doc_lengths = map fst doc_lengths"
    using dl by (rule dict_keys_distinct)
  then have n: "length (dict_keys doc_lengths) = length documents"
    by (simp add: doc_lengths_def doc_tokens_def)
  have "\<forall>dt \<in> set doc_tokens. snd dt \<noteq> [] \<longrightarrow> 0 < avg"
  proof (intro ballI impI)
    fix dt assume m: "dt \<in> set doc_tokens" and ne: "snd dt \<noteq> []"
    have "length (snd dt) \<le> sum_list (map (\<lambda>dt. length (snd dt)) doc_tokens)"
      using m by (simp add: member_le_sum_list)
    then have "0 < sum_list (dict_values doc_lengths)" using ne vals by (cases "snd dt") auto
    moreover have "0 < length documents" using False by simp
    ultimately show "0 < avg" by (simp add: avg_def n)
  qed
  from score_docs_returns [OF bm this]
  obtain raw where "score_docs bm
      (\<lambda>token. idf_of (length documents) (dd_get (doc_freq (tokenize query) doc_tokens) token))
      (\<lambda>doc_id. the (dict_get doc_lengths doc_id)) avg (tokenize query) doc_tokens = Inr raw"
    by blast
  then show ?thesis
    using False
    by (simp add: score_documents_def Let_def doc_tokens_def doc_lengths_def avg_def)
qed

lemma bm25_search_returns:
  assumes "distinct (map point_id points)"
  shows "\<exists>results. bm25_search points query top_k = Inr results"
proof -
  have d: "distinct (map fst (map (\<lambda>p. (point_id p, get_str (p_content (payload p)))) points))"
    using assms by (simp add: comp_def)
  have "0 \<le> k1 default_bm25" "0 \<le> b default_bm25" "b default_bm25 \<le> 1"
    by (simp_all add: default_bm25_def)
  from score_documents_returns [OF this d]
  obtain scores where "score_documents default_bm25 query
      (map (\<lambda>p. (point_id p, get_str (p_content (payload p)))) points) = Inr scores"
    by blast
  then show ?thesis by (simp add: bm25_search_def Let_def)
qed


lemma tokenize_dog: "tokenize ''dog'' = [''dog'']"
  by code_simp

lemma score_docs_ids:
  "score_docs bm idf dls avg qs dts = Inr scores \<Longrightarrow> map fst scores = map fst dts"
proof (induction dts arbitrary: scores)
  case Nil
  then show ?case by simp
next
  case (Cons dt dts)
  obtain i tokens where dt: "dt = (i, tokens)" by (cases dt)
  from Cons.prems obtain s rest where
    "score_docs bm idf dls avg qs dts = Inr rest" and "scores = (i, s) # rest"
    by (auto simp: dt split: sum.splits)
  then show ?case using Cons.IH by (simp add: dt)
qed

lemma score_documents_ids:
  assumes "score_documents bm query documents = Inr scores"
  shows "mset (map fst scores) = mset (map fst documents)"
proof (cases "documents = [] \<or> tokenize query = []")
  case True
  show ?thesis
  proof (cases "documents = []")
    case True
    then show ?thesis using assms by (simp add: score_documents_def)
  next
    case False
    then have "scores = map (\<lambda>(doc_id, _). (doc_id, 0)) documents"
      using True assms by (simp add: score_documents_def Let_def)
    then show ?thesis by (simp add: case_prod_unfold comp_def)
  qed
next
  case False
  then obtain raw where
    raw: "score_docs bm
      (\<lambda>token. idf_of (length documents)
         (dd_get (doc_freq (tokenize query)
            (map (\<lambda>(doc_id, content). (doc_id, tokenize content)) documents)) token))
      (\<lambda>doc_id. the (dict_get (map (\<lambda>(doc_id, tokens). (doc_id, length tokens))
            (map (\<lambda>(doc_id, content). (doc_id, tokenize content)) documents)) doc_id))
      (real (sum_list (dict_values (map (\<lambda>(doc_id, tokens). (doc_id, length tokens))
            (map (\<lambda>(doc_id, content). (doc_id, tokenize content)) documents))))
        / real (length (dict_keys (map (\<lambda>(doc_id, tokens). (doc_id, length tokens))
            (map (\<lambda>(doc_id, content). (doc_id, tokenize content)) documents)))))
      (tokenize query) (map (\<lambda>(doc_id, content). (doc_id, tokenize content)) documents) = Inr raw"
    and sc: "scores = sort_desc snd raw"
    using assms by (auto simp: score_documents_def Let_def split: sum.splits)
  have "map fst raw = map fst (map (\<lambda>(doc_id, content). (doc_id, tokenize content)) documents)"
    using raw by (rule score_docs_ids)
  then have "map fst raw = map fst documents"
    by (simp add: case_prod_unfold comp_def)
  moreover have "mset (map fst scores) = mset (map fst raw)"
    by (simp add: sc sort_desc_def)
  ultimately show ?thesis by simp
qed

lemma bm25_search_shape:
  assumes "bm25_search points query top_k = Inr results"
  shows "\<exists>scores.
     score_documents default_bm25 query
        (map (\<lambda>p. (point_id p, get_str (p_content (payload p)))) points) = Inr scores
     \<and> results = map (\<lambda>(cid, sc). chunk_of_point
                        (the (dict_get (map (\<lambda>p. (point_id p, p)) points) cid)) cid sc)
                    (filter (\<lambda>(cid, sc). 0 < sc) (slice_to top_k scores))"
proof (cases "points = []")
  case True
  then show ?thesis
    using assms by (simp add: bm25_search_def score_documents_def slice_to_def)
next
  case False
  then show ?thesis
    using assms
    by (auto simp: bm25_search_def Let_def not_le split: sum.splits)
qed

text \<open>
  Claim C7. From candidate points with distinct ids the lexical path returns. Whatever
  it returns, for every query and every list of candidate points, is read off the BM25
  ranking \<open>scores\<close> of the contents of the points: the ids and scores of the chunks are
  the entries of strictly positive score among the first \<open>top_k\<close> of the ranking, in the
  order of the ranking, and every chunk is built from a candidate point with its id. So
  every chunk has a strictly positive score, the chunks are in descending order of score,
  they are at most \<open>top_k\<close> when \<open>top_k\<close> is not negative, and (the ids being distinct) a
  document that the ranking scores zero or less is not among them.
\<close>

theorem bm25_search_positive_sorted:
  "(distinct (map point_id points) \<longrightarrow> (\<exists>results. bm25_search points query top_k = Inr results))
   \<and> (\<forall>results. bm25_search points query top_k = Inr results \<longrightarrow>
         (\<exists>scores.
             score_documents default_bm25 query
               (map (\<lambda>p. (point_id p, get_str (p_content (payload p)))) points) = Inr scores
             \<and> mset (map fst scores) = mset (map point_id points)
             \<and> map (\<lambda>c. (chunk_id c, score c)) results
                 = filter (\<lambda>(cid, sc). 0 < sc) (slice_to top_k scores)
             \<and> (distinct (map point_id points) \<longrightarrow>
                  (\<forall>cid sc. (cid, sc) \<in> set scores \<and> sc \<le> 0 \<longrightarrow> cid \<notin> chunk_id ` set results)))
         \<and> (\<forall>c \<in> set results. \<exists>p \<in> set points.
                point_id p = chunk_id c \<and> c = chunk_of_point p (chunk_id c) (score c))
         \<and> (0 \<le> top_k \<longrightarrow> int (length results) \<le> top_k)
         \<and> (\<forall>c \<in> set results. 0 < score c)
         \<and> sorted_wrt (\<lambda>x y. score y \<le> score x) results)"
proof (intro conjI impI allI)
  assume "distinct (map point_id points)"
  then show "\<exists>results. bm25_search points query top_k = Inr results"
    by (rule bm25_search_returns)
next
  fix results
  assume r: "bm25_search points query top_k = Inr results"
  define documents where "documents = map (\<lambda>p. (point_id p, get_str (p_content (payload p)))) points"
  define point_map where "point_map = map (\<lambda>p. (point_id p, p)) points"
  from bm25_search_shape [OF r] obtain scores where
    sc: "score_documents default_bm25 query documents = Inr scores" and
    res: "results = map (\<lambda>(cid, sc). chunk_of_point (the (dict_get point_map cid)) cid sc)
                   (filter (\<lambda>(cid, sc). 0 < sc) (slice_to top_k scores))"
    unfolding documents_def point_map_def by blast
  define kept where "kept = filter (\<lambda>(cid, sc). 0 < sc) (slice_to top_k scores)"
  have ids: "mset (map fst scores) = mset (map point_id points)"
    using score_documents_ids [OF sc] by (simp add: documents_def comp_def)
  have pairs: "map (\<lambda>c. (chunk_id c, score c)) results = kept"
    by (simp add: res kept_def chunk_of_point_def case_prod_unfold comp_def)
  have kept_sub: "set kept \<subseteq> set scores"
    by (auto simp: kept_def slice_to_def dest: in_set_takeD)
  have pos: "\<forall>c \<in> set results. 0 < score c"
    by (auto simp: res chunk_of_point_def)
  have never: "distinct (map point_id points) \<longrightarrow>
        (\<forall>cid sc. (cid, sc) \<in> set scores \<and> sc \<le> 0 \<longrightarrow> cid \<notin> chunk_id ` set results)"
  proof (intro impI allI)
    fix cid sc
    assume d: "distinct (map point_id points)" and z: "(cid, sc) \<in> set scores \<and> sc \<le> 0"
    have ds: "distinct (map fst scores)"
      using d ids by (metis mset_eq_imp_distinct_iff)
    show "cid \<notin> chunk_id ` set results"
    proof
      assume "cid \<in> chunk_id ` set results"
      then obtain c where c: "c \<in> set results" and i: "chunk_id c = cid" by blast
      have "(chunk_id c, score c) \<in> set (map (\<lambda>c. (chunk_id c, score c)) results)"
        using c by force
      then have "(cid, score c) \<in> set scores" using pairs kept_sub i by auto
      then have "score c = sc" using z ds by (meson eq_key_imp_eq_value)
      then show False using pos c z by force
    qed
  qed
  have built: "\<forall>c \<in> set results. \<exists>p \<in> set points.
                point_id p = chunk_id c \<and> c = chunk_of_point p (chunk_id c) (score c)"
  proof
    fix c assume "c \<in> set results"
    then obtain cid s where m: "(cid, s) \<in> set kept"
      and c: "c = chunk_of_point (the (dict_get point_map cid)) cid s"
      by (auto simp: res kept_def)
    have "cid \<in> set (map fst scores)" using m kept_sub by force
    then have "cid \<in> set (map point_id points)" using ids by (metis set_mset_mset)
    then have "cid \<in> fst ` set point_map" by (force simp: point_map_def)
    then obtain p where g: "dict_get point_map cid = Some p"
      using dict_get_None [of point_map cid] by (cases "dict_get point_map cid") auto
    then have "(cid, p) \<in> set point_map" by (rule dict_get_SomeD)
    then have "p \<in> set points" "point_id p = cid" by (auto simp: point_map_def)
    then show "\<exists>p \<in> set points. point_id p = chunk_id c \<and> c = chunk_of_point p (chunk_id c) (score c)"
      using c g by (auto simp: chunk_of_point_def)
  qed
  have len: "0 \<le> top_k \<longrightarrow> int (length results) \<le> top_k"
  proof
    assume k: "0 \<le> top_k"
    have "length results \<le> length (slice_to top_k scores)"
      by (simp add: res)
    then show "int (length results) \<le> top_k"
      using slice_to_length [OF k, of scores] by linarith
  qed
  have "sorted_wrt (\<lambda>x y. snd y \<le> snd x) kept"
    unfolding kept_def
    by (intro sorted_wrt_filter sorted_wrt_slice_to score_documents_sorted [OF sc])
  then have "sorted_wrt (\<lambda>x y. snd y \<le> snd x) (map (\<lambda>c. (chunk_id c, score c)) results)"
    by (simp only: pairs)
  then have srt: "sorted_wrt (\<lambda>x y. score y \<le> score x) results"
    by (simp add: sorted_wrt_map)
  show "\<exists>scores.
             score_documents default_bm25 query
               (map (\<lambda>p. (point_id p, get_str (p_content (payload p)))) points) = Inr scores
             \<and> mset (map fst scores) = mset (map point_id points)
             \<and> map (\<lambda>c. (chunk_id c, score c)) results
                 = filter (\<lambda>(cid, sc). 0 < sc) (slice_to top_k scores)
             \<and> (distinct (map point_id points) \<longrightarrow>
                  (\<forall>cid sc. (cid, sc) \<in> set scores \<and> sc \<le> 0 \<longrightarrow> cid \<notin> chunk_id ` set results))"
    using sc ids pairs never unfolding documents_def kept_def by blast
  show "\<forall>c \<in> set results. \<exists>p \<in> set points.
                point_id p = chunk_id c \<and> c = chunk_of_point p (chunk_id c) (score c)"
    by (rule built)
  show "\<forall>c \<in> set results. 0 < score c" by (rule pos)
  show "sorted_wrt (\<lambda>x y. score y \<le> score x) results" by (rule srt)
  { assume "0 \<le> top_k" then show "int (length results) \<le> top_k" using len by blast }
qed

lemma score_documents_cat_dog:
  "score_documents default_bm25 ''cat'' [(1, ''cat''), (2, ''dog'')] = Inr [(1, ln 2), (2, 0)]"
  by (simp add: score_documents_def tokenize_cat tokenize_dog Let_def
      dict_values_def dict_keys_def dict_get_def doc_freq_def df_doc_def incr_def dd_get_def
      idf_of_def term_freqs_def default_bm25_def sort_desc_def)

lemma bm25_search_cat_dog:
  "bm25_search [cat_point, dog_point] ''cat'' 2 = Inr [chunk_of_point cat_point 1 (ln 2)]"
proof -
  have "map (\<lambda>p. (point_id p, get_str (p_content (payload p)))) [cat_point, dog_point]
          = [(1, ''cat''), (2, ''dog'')]"
    by (simp add: cat_point_def dog_point_def get_str_def)
  moreover have "score_documents default_bm25 ''cat'' [(Suc 0, ''cat''), (2, ''dog'')]
          = Inr [(Suc 0, ln 2), (2, 0)]"
    using score_documents_cat_dog by simp
  ultimately show ?thesis
    by (simp add: bm25_search_def Let_def slice_to_def dict_get_def cat_point_def dog_point_def)
qed

theorem bm25_search_positive_sorted_witness:
  "distinct (map point_id [cat_point, dog_point])
   \<and> score_documents default_bm25 ''cat''
        (map (\<lambda>p. (point_id p, get_str (p_content (payload p)))) [cat_point, dog_point])
       = Inr [(1, ln 2), (2, 0)]
   \<and> bm25_search [cat_point, dog_point] ''cat'' 2 = Inr [chunk_of_point cat_point 1 (ln 2)]
   \<and> map (\<lambda>c. (chunk_id c, score c)) [chunk_of_point cat_point 1 (ln 2)] = [(1, ln 2)]
   \<and> 0 < score (chunk_of_point cat_point 1 (ln 2))
   \<and> point_id dog_point \<notin> chunk_id ` set [chunk_of_point cat_point 1 (ln 2)]
   \<and> int (length [chunk_of_point cat_point 1 (ln 2)]) \<le> 2"
proof -
  have d: "distinct (map point_id [cat_point, dog_point])"
    by (simp add: cat_point_def dog_point_def)
  have docs: "map (\<lambda>p. (point_id p, get_str (p_content (payload p)))) [cat_point, dog_point]
          = [(1, ''cat''), (2, ''dog'')]"
    by (simp add: cat_point_def dog_point_def get_str_def)
  have "\<forall>c \<in> set [chunk_of_point cat_point 1 (ln 2)]. 0 < score c"
    using bm25_search_positive_sorted [of "[cat_point, dog_point]" "''cat''" 2]
      bm25_search_cat_dog by blast
  then have pos: "0 < score (chunk_of_point cat_point 1 (ln 2))" by simp
  show ?thesis
    using d docs pos bm25_search_cat_dog score_documents_cat_dog
    by (simp add: chunk_of_point_def dog_point_def)
qed

section \<open>Embeddings in batches\<close>

lemma fold_check_cache:
  "fold (check_cache g) (enumerate n ts) (E, UI, UT) =
     (E @ map (\<lambda>it. (fst it, the (cache_get g (snd it))))
            (filter (\<lambda>it. cache_get g (snd it) \<noteq> None) (enumerate n ts)),
      UI @ map fst (filter (\<lambda>it. cache_get g (snd it) = None) (enumerate n ts)),
      UT @ map snd (filter (\<lambda>it. cache_get g (snd it) = None) (enumerate n ts)))"
  by (induction ts arbitrary: n E UI UT) (auto simp: check_cache_def split: option.splits)

lemma store_batch_ok:
  assumes "es = map emb (drop i bt)" and "bstart + length bt \<le> length UI"
  shows "\<exists>C'. store_batch UI bt bstart i es (E, C)
           = Inr (E @ map (\<lambda>j. (UI ! (bstart + j), emb (bt ! j))) [i..<length bt], C')"
  using assms
proof (induction es arbitrary: i E C)
  case Nil
  then have "length bt \<le> i" by simp
  then show ?case by simp
next
  case (Cons e rest)
  from Cons.prems(1) have i: "i < length bt"
    by (metis drop_all list.distinct(1) list.simps(8) not_le)
  then have d: "drop i bt = bt ! i # drop (Suc i) bt"
    by (simp add: Cons_nth_drop_Suc)
  with Cons.prems(1) have e: "e = emb (bt ! i)" and rest: "rest = map emb (drop (Suc i) bt)"
    by simp_all
  have ui: "\<not> length UI \<le> bstart + i" using i Cons.prems(2) by linarith
  have r: "[i..<length bt] = i # [Suc i..<length bt]" using i by (simp add: upt_conv_Cons)
  show ?case
  proof (cases C)
    case None
    obtain C' where "store_batch UI bt bstart (Suc i) rest (E @ [(UI ! (bstart + i), e)], None)
           = Inr ((E @ [(UI ! (bstart + i), e)])
                   @ map (\<lambda>j. (UI ! (bstart + j), emb (bt ! j))) [Suc i..<length bt], C')"
      using Cons.IH [OF rest Cons.prems(2)] by blast
    then show ?thesis using None ui e r by (simp add: Let_def)
  next
    case (Some c)
    obtain C' where "store_batch UI bt bstart (Suc i) rest
             (E @ [(UI ! (bstart + i), e)], Some (c(bt ! i \<mapsto> e)))
           = Inr ((E @ [(UI ! (bstart + i), e)])
                   @ map (\<lambda>j. (UI ! (bstart + j), emb (bt ! j))) [Suc i..<length bt], C')"
      using Cons.IH [OF rest Cons.prems(2)] by blast
    then show ?thesis using Some ui i e r by (simp add: Let_def)
  qed
qed

lemma ceil_div_less:
  fixes m bs k :: nat
  assumes "0 < bs"
  shows "k < (m + bs - 1) div bs \<longleftrightarrow> k * bs < m"
proof -
  have "k < (m + bs - 1) div bs \<longleftrightarrow> Suc k \<le> (m + bs - 1) div bs" by auto
  also have "\<dots> \<longleftrightarrow> Suc k * bs \<le> m + bs - 1"
    using assms by (rule less_eq_div_iff_mult_less_eq)
  also have "\<dots> \<longleftrightarrow> k * bs < m" using assms by auto
  finally show ?thesis .
qed

lemma run_batches_ok:
  assumes gen: "\<forall>ts. generate_with_retry g ts = Inr (map emb ts)"
    and bs: "0 < batch_size g"
    and len: "length UI = length UT"
    and K: "K = (length UT + nat (batch_size g) - 1) div nat (batch_size g)"
  shows "k \<le> K \<Longrightarrow>
    \<exists>C'. run_batches g UI UT (map (\<lambda>j. j * nat (batch_size g)) [k..<K]) (E, C)
       = Inr (E @ map (\<lambda>p. (UI ! p, emb (UT ! p)))
                    [min (k * nat (batch_size g)) (length UT)..<length UT], C')"
proof (induction "K - k" arbitrary: k E C)
  case 0
  then have "k = K" by simp
  then have "\<not> k < (length UT + nat (batch_size g) - 1) div nat (batch_size g)"
    using K by simp
  moreover have "0 < nat (batch_size g)" using bs by simp
  then have "k < (length UT + nat (batch_size g) - 1) div nat (batch_size g)
               \<longleftrightarrow> k * nat (batch_size g) < length UT"
    by (rule ceil_div_less)
  ultimately have "\<not> k * nat (batch_size g) < length UT"
    by blast
  then show ?case using \<open>k = K\<close> by simp
next
  case (Suc d)
  define n where "n = nat (batch_size g)"
  define m where "m = length UT"
  have n: "0 < n" and bsn: "batch_size g = int n" using bs by (simp_all add: n_def)
  from Suc have kK: "k < K" by simp
  moreover have "k < (m + n - 1) div n \<longleftrightarrow> k * n < m"
    using n by (rule ceil_div_less)
  ultimately have km: "k * n < m" using K by (simp only: n_def m_def)
  define be where "be = min (k * n + n) m"
  have be_int: "min (int (k * n) + batch_size g) (int (length UT)) = int be"
    unfolding be_def bsn m_def by (simp only: of_nat_min of_nat_add)
  define bt where "bt = drop (k * n) (take be UT)"
  have bt_slice: "drop (k * n) (slice_to (int be) UT) = bt"
    by (simp add: slice_to_def bt_def)
  have lbt: "length bt = be - k * n" by (simp add: bt_def be_def m_def)
  have be_le: "be \<le> m" and k_le: "k * n \<le> be" using km by (simp_all add: be_def)
  have nth_bt: "\<And>j. j < length bt \<Longrightarrow> bt ! j = UT ! (k * n + j)"
    using lbt be_le by (simp add: bt_def m_def)
  have "k * n + length bt \<le> length UI" using lbt be_le k_le len by (simp add: m_def)
  then obtain C1 where sb: "store_batch UI bt (k * n) 0 (map emb bt) (E, C)
      = Inr (E @ map (\<lambda>j. (UI ! (k * n + j), emb (bt ! j))) [0..<length bt], C1)"
    using store_batch_ok [of "map emb bt" emb 0 bt "k * n" UI E C] by auto
  have "map (\<lambda>j. (UI ! (k * n + j), emb (bt ! j))) [0..<length bt]
        = map (\<lambda>j. (UI ! (k * n + j), emb (UT ! (k * n + j)))) [0..<length bt]"
    using nth_bt by simp
  also have "\<dots> = map (\<lambda>p. (UI ! p, emb (UT ! p))) (map (\<lambda>j. j + k * n) [0..<be - k * n])"
    by (simp add: lbt add.commute)
  also have "map (\<lambda>j. j + k * n) [0..<be - k * n] = [k * n..<be]"
    using k_le by (simp add: map_add_upt)
  finally have seg: "map (\<lambda>j. (UI ! (k * n + j), emb (bt ! j))) [0..<length bt]
        = map (\<lambda>p. (UI ! p, emb (UT ! p))) [k * n..<be]" .
  have d: "d = K - Suc k" and k1: "Suc k \<le> K" using Suc kK by simp_all
  obtain C2 where ih: "run_batches g UI UT (map (\<lambda>j. j * nat (batch_size g)) [Suc k..<K])
        (E @ map (\<lambda>p. (UI ! p, emb (UT ! p))) [k * n..<be], C1)
      = Inr ((E @ map (\<lambda>p. (UI ! p, emb (UT ! p))) [k * n..<be])
              @ map (\<lambda>p. (UI ! p, emb (UT ! p)))
                  [min (Suc k * nat (batch_size g)) (length UT)..<length UT], C2)"
    using Suc.hyps(1) [OF d k1] by blast
  have be2: "min (Suc k * nat (batch_size g)) (length UT) = be"
    by (simp add: be_def n_def m_def add.commute)
  have join: "[k * n..<be] @ [be..<m] = [k * n..<m]"
    using k_le be_le by (metis le_Suc_ex upt_add_eq_append)
  have "map (\<lambda>p. (UI ! p, emb (UT ! p))) [k * n..<be]
          @ map (\<lambda>p. (UI ! p, emb (UT ! p))) [be..<m]
        = map (\<lambda>p. (UI ! p, emb (UT ! p))) [k * n..<m]"
    by (simp add: join flip: map_append)
  then have fin: "(E @ map (\<lambda>p. (UI ! p, emb (UT ! p))) [k * n..<be])
              @ map (\<lambda>p. (UI ! p, emb (UT ! p))) [be..<length UT]
            = E @ map (\<lambda>p. (UI ! p, emb (UT ! p)))
                    [min (k * nat (batch_size g)) (length UT)..<length UT]"
    using km by (simp add: m_def n_def)
  have upt: "[k..<K] = k # [Suc k..<K]" using kK by (simp add: upt_conv_Cons)
  have step: "run_batches g UI UT (map (\<lambda>j. j * nat (batch_size g)) [k..<K]) (E, C)
      = run_batches g UI UT (map (\<lambda>j. j * nat (batch_size g)) [Suc k..<K])
          (E @ map (\<lambda>p. (UI ! p, emb (UT ! p))) [k * n..<be], C1)"
    using gen sb seg bt_slice be_int
    by (simp add: upt Let_def n_def [symmetric])
  show ?case
    using step ih fin be2 by simp
qed


lemma filter_key_singleton:
  "distinct (map f zs) \<Longrightarrow> k \<in> set zs \<Longrightarrow> filter (\<lambda>x. f k = f x) zs = [k]"
proof (induction zs)
  case Nil
  then show ?case by simp
next
  case (Cons z zs)
  show ?case
  proof (cases "k = z")
    case True
    have "\<forall>x \<in> set zs. f z \<noteq> f x" using Cons.prems(1) by auto
    then have "filter (\<lambda>x. f z = f x) zs = []" by (simp add: filter_empty_conv)
    then show ?thesis using True by simp
  next
    case False
    then have k: "k \<in> set zs" using Cons.prems(2) by simp
    then have "f k \<in> f ` set zs" by simp
    moreover have "f z \<notin> f ` set zs" using Cons.prems(1) by simp
    ultimately have "f k \<noteq> f z" by metis
    then show ?thesis using Cons.IH k Cons.prems(1) by simp
  qed
qed

lemma sort_key_distinct_unique:
  assumes m: "mset xs = mset ys" and s: "sorted (map f ys)" and d: "distinct (map f ys)"
  shows "sort_key f xs = ys"
proof (rule properties_for_sort_key)
  show "mset ys = mset xs" using m by simp
  show "sorted (map f ys)" by (rule s)
  fix k assume k: "k \<in> set ys"
  have "mset (map f xs) = mset (map f ys)" using m by simp
  then have dx: "distinct (map f xs)" using d by (metis mset_eq_imp_distinct_iff)
  have kx: "k \<in> set xs" using k m by (metis mset_eq_setD)
  show "filter (\<lambda>x. f k = f x) ys = filter (\<lambda>x. f k = f x) xs"
    by (simp add: filter_key_singleton [OF d k] filter_key_singleton [OF dx kx])
qed

lemma map_indexed_pairs:
  "map (\<lambda>p. (map fst ms ! p, h (map snd ms ! p))) [0..<length ms]
     = map (\<lambda>it. (fst it, h (snd it))) ms"
  by (rule nth_equalityI) simp_all

lemma py_range_pos:
  "0 < step \<Longrightarrow>
   py_range n step = Inr (map (\<lambda>j. j * nat step) [0..<(n + nat step - 1) div nat step])"
  by (simp add: py_range_def)

lemma collected_embeddings:
  assumes gen: "\<forall>ts. generate_with_retry g ts = Inr (map emb ts)"
    and bs: "0 < batch_size g"
    and len: "length UI = length UT"
  shows "\<exists>C'. (if UT = [] then Inr (H, cache g)
               else (case py_range (length UT) (batch_size g) of
                       Inl e \<Rightarrow> Inl e
                     | Inr starts \<Rightarrow> run_batches g UI UT starts (H, cache g)))
            = Inr (H @ map (\<lambda>p. (UI ! p, emb (UT ! p))) [0..<length UT], C')"
proof (cases "UT = []")
  case True
  then show ?thesis by simp
next
  case False
  obtain C' where "run_batches g UI UT
        (map (\<lambda>j. j * nat (batch_size g))
           [0..<(length UT + nat (batch_size g) - 1) div nat (batch_size g)]) (H, cache g)
      = Inr (H @ map (\<lambda>p. (UI ! p, emb (UT ! p)))
                   [min (0 * nat (batch_size g)) (length UT)..<length UT], C')"
    using run_batches_ok [OF gen bs len refl, of 0 H "cache g"] by blast
  then show ?thesis using False by (simp add: py_range_pos [OF bs])
qed

text \<open>
  Claim C9. When the provider returns one vector per text in the order of its input and
  the batch size is positive, \<^verbatim>\<open>generate_embeddings_batch\<close> returns, for every list of
  texts and whatever texts the cache holds, the list of the same length whose i-th
  element is the embedding of the i-th text: the cached vector on a hit, the vector of
  the provider on a miss.
\<close>

theorem batch_embeddings_in_input_order:
  assumes gen: "\<forall>ts. generate_with_retry g ts = Inr (map emb ts)"
    and bs: "0 < batch_size g"
  shows "\<exists>cache'. generate_embeddings_batch g texts
           = Inr (cache', map (embedding_of g emb) texts)"
proof -
  define hitl where "hitl = filter (\<lambda>it. cache_get g (snd it) \<noteq> None) (enumerate 0 texts)"
  define misses where "misses = filter (\<lambda>it. cache_get g (snd it) = None) (enumerate 0 texts)"
  define H where "H = map (\<lambda>it. (fst it, the (cache_get g (snd it)))) hitl"
  define G where "G = (\<lambda>it :: nat \<times> string. (fst it, embedding_of g emb (snd it)))"
  have fold1: "fold (check_cache g) (enumerate 0 texts) ([], [], [])
                 = (H, map fst misses, map snd misses)"
    by (simp add: fold_check_cache H_def hitl_def misses_def)
  obtain C' where run: "(if map snd misses = [] then Inr (H, cache g)
               else (case py_range (length (map snd misses)) (batch_size g) of
                       Inl e \<Rightarrow> Inl e
                     | Inr starts \<Rightarrow>
                         run_batches g (map fst misses) (map snd misses) starts (H, cache g)))
            = Inr (H @ map (\<lambda>p. (map fst misses ! p, emb (map snd misses ! p)))
                         [0..<length (map snd misses)], C')"
    using collected_embeddings [OF gen bs, of "map fst misses" "map snd misses" H] by auto
  have HG: "H = map G hitl"
    by (auto simp: H_def G_def hitl_def embedding_of_def)
  have MG: "map (\<lambda>p. (map fst misses ! p, emb (map snd misses ! p)))
              [0..<length (map snd misses)] = map G misses"
    using map_indexed_pairs [of misses emb]
    by (auto simp: G_def misses_def embedding_of_def)
  have "mset hitl + mset misses = mset (enumerate 0 texts)"
    unfolding hitl_def misses_def by (simp add: mset_filter)
  then have ms: "mset (map G hitl @ map G misses) = mset (map G (enumerate 0 texts))"
    by (metis mset_append mset_map image_mset_union)
  have keys: "map fst (map G (enumerate 0 texts)) = [0..<length texts]"
    by (simp add: G_def comp_def)
  have "sort_key fst (map G hitl @ map G misses) = map G (enumerate 0 texts)"
    by (rule sort_key_distinct_unique [OF ms]) (simp_all only: keys sorted_upt distinct_upt)
  moreover have "map snd (map G (enumerate 0 texts)) = map (embedding_of g emb) texts"
  proof -
    have "map snd (map G (enumerate 0 texts))
            = map (\<lambda>it. embedding_of g emb (snd it)) (enumerate 0 texts)"
      by (simp add: G_def comp_def)
    also have "\<dots> = map (embedding_of g emb) (map snd (enumerate 0 texts))"
      by (simp only: map_map comp_def)
    also have "\<dots> = map (embedding_of g emb) texts"
      by (simp only: map_snd_enumerate)
    finally show ?thesis .
  qed
  ultimately have "map snd (sort_key fst (H @ map G misses)) = map (embedding_of g emb) texts"
    by (simp only: HG)
  then have "generate_embeddings_batch g texts = Inr (C', map (embedding_of g emb) texts)"
    using fold1 run MG by (simp add: generate_embeddings_batch_def)
  then show ?thesis by blast
qed


theorem batch_embeddings_in_input_order_witness:
  "\<exists>cache'. generate_embeddings_batch sample_generator [''a'', ''b'', ''cc'', ''a'', ''ddd'']
      = Inr (cache', [[1], [1/2], [2], [1], [3]])"
proof -
  have gen: "\<forall>ts. generate_with_retry sample_generator ts = Inr (map sample_embed ts)"
    by (simp add: sample_generator_def)
  have bs: "0 < batch_size sample_generator"
    by (simp add: sample_generator_def)
  have "map (embedding_of sample_generator sample_embed) [''a'', ''b'', ''cc'', ''a'', ''ddd'']
          = [[1], [1/2], [2], [1], [3]]"
    by (simp add: embedding_of_def cache_get_def sample_generator_def sample_embed_def)
  then show ?thesis
    using batch_embeddings_in_input_order [OF gen bs, of "[''a'', ''b'', ''cc'', ''a'', ''ddd'']"]
    by simp
qed

section \<open>Reciprocal rank fusion\<close>

lemma rank_map_zip:
  "rank_map h rs = zip (map (\<lambda>r. chunk_id (h r)) rs) [0..<length rs]"
  by (simp add: rank_map_def enumerate_eq_zip zip_map2 zip_map1 case_prod_unfold zip_commute [of "[0..<length rs]"] map_zip_map)
  
lemma map_fst_rank_map: "map fst (rank_map h rs) = map (\<lambda>r. chunk_id (h r)) rs"
  by (simp add: rank_map_zip)

lemma map_of_zip_position:
  "map_of (zip ids [n..<n + length ids]) x = position_from n ids x"
proof (induction ids arbitrary: n)
  case Nil
  then show ?case by simp
next
  case (Cons y ys)
  have "[n..<n + length (y # ys)] = n # [Suc n..<Suc n + length ys]"
    using upt_conv_Cons [of n "n + length (y # ys)"] by simp
  then show ?case using Cons.IH [of "Suc n"] by simp
qed

lemma rank_map_position:
  assumes "distinct (map (\<lambda>r. chunk_id (h r)) rs)"
  shows "dict_get (rank_map h rs) x = position_from 0 (map (\<lambda>r. chunk_id (h r)) rs) x"
proof -
  have "dict_get (rank_map h rs) = map_of (rank_map h rs)"
    using assms by (intro dict_get_distinct) (simp add: map_fst_rank_map)
  then show ?thesis
    using map_of_zip_position [of "map (\<lambda>r. chunk_id (h r)) rs" 0 x]
    by (simp add: rank_map_zip)
qed

lemma rrf_value_spec:
  assumes "distinct (map (\<lambda>r. chunk_id (h r)) vs)" and "distinct (map (\<lambda>r. chunk_id (h r)) bs)"
  shows "rrf_value k (rank_map h vs) (rank_map h bs) x
           = rrf_spec k (map (\<lambda>r. chunk_id (h r)) vs) (map (\<lambda>r. chunk_id (h r)) bs) x"
  by (simp add: rrf_value_def rrf_spec_def rrf_term_def rank_map_position [OF assms(1)]
      rank_map_position [OF assms(2)])

lemma rrf_score_total:
  assumes "0 < k"
  shows "rrf_score k vr br x = Inr (rrf_value k vr br x)"
proof -
  have "\<And>rank :: nat. k + int rank \<noteq> 0" using assms by linarith
  then show ?thesis
    by (simp add: rrf_score_def rrf_value_def split: option.splits)
qed

lemma rrf_scores_total:
  assumes "0 < k"
  shows "rrf_scores k vr br ids = Inr (map (\<lambda>x. (x, rrf_value k vr br x)) ids)"
  by (induction ids) (simp_all add: rrf_score_total [OF assms])

lemma insort_key_cong_set:
  "f x = g x \<Longrightarrow> \<forall>y \<in> set ys. f y = g y \<Longrightarrow> insort_key f x ys = insort_key g x ys"
  by (induction ys) simp_all

lemma sort_key_cong_set:
  "\<forall>x \<in> set xs. f x = g x \<Longrightarrow> sort_key f xs = sort_key g xs"
proof (induction xs)
  case Nil
  then show ?case by simp
next
  case (Cons x xs)
  then have ih: "sort_key f xs = sort_key g xs" by simp
  have "insort_key f x (sort_key g xs) = insort_key g x (sort_key g xs)"
    using Cons.prems by (intro insort_key_cong_set) simp_all
  then show ?case using ih by simp
qed

lemma fold_fuse_step:
  assumes "\<forall>i \<in> set ids. the (dict_get scores i) = S (the (dict_get cm i))"
  shows "fold (fuse_step cm scores) ids (h0, out)
     = ((\<lambda>r. if r \<in> (\<lambda>i. the (dict_get cm i)) ` set ids then (h0 r)\<lparr>score := S r\<rparr> else h0 r),
        out @ map (\<lambda>i. the (dict_get cm i)) ids)"
  using assms
proof (induction ids arbitrary: h0 out)
  case Nil
  then show ?case by simp
next
  case (Cons i ids)
  define r0 where "r0 = the (dict_get cm i)"
  define h1 where "h1 = h0(r0 := (h0 r0)\<lparr>score := S r0\<rparr>)"
  have step: "fuse_step cm scores i (h0, out) = (h1, out @ [r0])"
    using Cons.prems by (simp add: fuse_step_def Let_def h1_def r0_def)
  have ih: "fold (fuse_step cm scores) ids (h1, out @ [r0])
     = ((\<lambda>r. if r \<in> (\<lambda>i. the (dict_get cm i)) ` set ids then (h1 r)\<lparr>score := S r\<rparr> else h1 r),
        (out @ [r0]) @ map (\<lambda>i. the (dict_get cm i)) ids)"
    using Cons.prems by (intro Cons.IH) simp
  have "(\<lambda>r. if r \<in> (\<lambda>i. the (dict_get cm i)) ` set ids then (h1 r)\<lparr>score := S r\<rparr> else h1 r)
      = (\<lambda>r. if r \<in> (\<lambda>i. the (dict_get cm i)) ` set (i # ids) then (h0 r)\<lparr>score := S r\<rparr> else h0 r)"
    by (rule ext) (auto simp: h1_def r0_def)
  then show ?case using step ih by (simp add: r0_def)
qed


lemma chunk_map_lookup:
  assumes "i \<in> (\<lambda>r. chunk_id (h r)) ` (set vs \<union> set bs)"
  shows "\<exists>r. dict_get (map (\<lambda>r. (chunk_id (h r), r)) (vs @ bs)) i = Some r
             \<and> r \<in> set vs \<union> set bs \<and> chunk_id (h r) = i
             \<and> (i \<in> (\<lambda>r. chunk_id (h r)) ` set bs \<longrightarrow> r \<in> set bs)"
proof -
  define f where "f = (\<lambda>r. (chunk_id (h r), r))"
  have keys: "fst ` set (map f (vs @ bs)) = (\<lambda>r. chunk_id (h r)) ` (set vs \<union> set bs)"
    by (simp add: f_def image_image image_Un)
  then have "dict_get (map f (vs @ bs)) i \<noteq> None"
    using assms by (simp only: dict_get_None) simp
  then obtain r where r: "dict_get (map f (vs @ bs)) i = Some r" by blast
  then have "(i, r) \<in> set (map f (vs @ bs))" by (rule dict_get_SomeD)
  then have mem: "r \<in> set vs \<union> set bs" and cid: "chunk_id (h r) = i"
    by (auto simp: f_def)
  have "i \<in> (\<lambda>r. chunk_id (h r)) ` set bs \<longrightarrow> r \<in> set bs"
  proof
    assume "i \<in> (\<lambda>r. chunk_id (h r)) ` set bs"
    then have "i \<in> fst ` set (rev (map f bs))" by (auto simp: f_def image_iff)
    then obtain r' where r': "map_of (rev (map f bs)) i = Some r'"
      by (metis map_of_eq_None_iff not_None_eq)
    have "dict_get (map f (vs @ bs)) i = (map_of (rev (map f vs)) ++ map_of (rev (map f bs))) i"
      by (simp add: dict_get_def)
    then have "dict_get (map f (vs @ bs)) i = Some r'"
      using r' by (simp add: map_add_Some_iff)
    then have "r = r'" using r by simp
    moreover have "(i, r') \<in> set (rev (map f bs))" using r' by (rule map_of_SomeD)
    ultimately show "r \<in> set bs" by (auto simp: f_def)
  qed
  with r mem cid show ?thesis unfolding f_def by blast
qed

lemma map_of_graph:
  "x \<in> set xs \<Longrightarrow> map_of (map (\<lambda>x. (x, V x)) xs) x = Some (V x)"
  by (induction xs) auto

lemma fusion_result:
  assumes perm: "\<forall>xs. mset (set_iter xs) = mset xs" and k: "0 < k"
    and vr: "vr = rank_map h vs" and br: "br = rank_map h bs"
    and ids: "ids = set_iter (remdups (dict_keys vr @ dict_keys br))"
    and cm: "cm = map (\<lambda>r. (chunk_id (h r), r)) (vs @ bs)"
    and fused: "fused = map (\<lambda>i. the (dict_get cm i)) (sort_desc (rrf_value k vr br) ids)"
  shows "reciprocal_rank_fusion set_iter h vs bs k
           = Inr ((\<lambda>r. if r \<in> set fused
                        then (h r)\<lparr>score := rrf_value k vr br (chunk_id (h r))\<rparr> else h r),
                  fused)"
    and "distinct ids"
    and "set ids = (\<lambda>r. chunk_id (h r)) ` (set vs \<union> set bs)"
proof -
  define V where "V = rrf_value k vr br"
  define scores where "scores = map (\<lambda>x. (x, V x)) ids"
  have "mset ids = mset (remdups (dict_keys vr @ dict_keys br))"
    using perm ids by simp
  then have "distinct ids = distinct (remdups (dict_keys vr @ dict_keys br))"
    and sids: "set ids = set (remdups (dict_keys vr @ dict_keys br))"
    by (rule mset_eq_imp_distinct_iff, rule mset_eq_setD)
  then show dids: "distinct ids" by simp
  show set_ids: "set ids = (\<lambda>r. chunk_id (h r)) ` (set vs \<union> set bs)"
    using sids by (simp add: set_dict_keys vr br image_Un)
       (metis (no_types, lifting) image_image list.set_map map_fst_rank_map)
  have sc: "rrf_scores k vr br ids = Inr scores"
    by (simp add: rrf_scores_total [OF k] scores_def V_def)
  have dk: "distinct (map fst scores)" using dids by (simp add: scores_def comp_def)
  have keys: "dict_keys scores = ids"
    using dict_keys_distinct [OF dk] by (simp add: scores_def comp_def)
  have get: "\<forall>x \<in> set ids. the (dict_get scores x) = V x"
    using dict_get_distinct [OF dk] by (simp add: scores_def map_of_graph)
  define sorted_ids where "sorted_ids = sort_desc V ids"
  have sorted_eq: "sort_desc (\<lambda>x. the (dict_get scores x)) (dict_keys scores) = sorted_ids"
    unfolding sort_desc_def keys sorted_ids_def
    using get by (intro sort_key_cong_set) simp
  have set_sorted: "set sorted_ids = set ids"
    by (simp add: sorted_ids_def sort_desc_def)
  have lookup: "\<forall>i \<in> set sorted_ids. chunk_id (h (the (dict_get cm i))) = i"
  proof
    fix i assume "i \<in> set sorted_ids"
    then have "i \<in> (\<lambda>r. chunk_id (h r)) ` (set vs \<union> set bs)"
      using set_sorted set_ids by simp
    from chunk_map_lookup [OF this] show "chunk_id (h (the (dict_get cm i))) = i"
      unfolding cm by auto
  qed
  have "\<forall>i \<in> set sorted_ids. the (dict_get scores i)
          = (\<lambda>r. V (chunk_id (h r))) (the (dict_get cm i))"
    using lookup get set_sorted by simp
  from fold_fuse_step [OF this, of h "[]"]
  have fold_eq: "fold (fuse_step cm scores) sorted_ids (h, [])
     = ((\<lambda>r. if r \<in> (\<lambda>i. the (dict_get cm i)) ` set sorted_ids
              then (h r)\<lparr>score := V (chunk_id (h r))\<rparr> else h r),
        map (\<lambda>i. the (dict_get cm i)) sorted_ids)"
    by simp
  have f: "fused = map (\<lambda>i. the (dict_get cm i)) sorted_ids"
    by (simp add: fused sorted_ids_def V_def)
  then have sf: "set fused = (\<lambda>i. the (dict_get cm i)) ` set sorted_ids" by simp
  show "reciprocal_rank_fusion set_iter h vs bs k
           = Inr ((\<lambda>r. if r \<in> set fused
                        then (h r)\<lparr>score := rrf_value k vr br (chunk_id (h r))\<rparr> else h r),
                  fused)"
    unfolding reciprocal_rank_fusion_def Let_def vr [symmetric] br [symmetric]
      ids [symmetric] cm [symmetric] sc sum.case sorted_eq fold_eq f V_def
    by simp
qed


lemma fused_ids:
  assumes perm: "\<forall>xs. mset (set_iter xs) = mset xs" and k: "0 < k"
    and vr: "vr = rank_map h vs" and br: "br = rank_map h bs"
    and ids: "ids = set_iter (remdups (dict_keys vr @ dict_keys br))"
    and cm: "cm = map (\<lambda>r. (chunk_id (h r), r)) (vs @ bs)"
    and fused: "fused = map (\<lambda>i. the (dict_get cm i)) (sort_desc (rrf_value k vr br) ids)"
  shows "map (\<lambda>r. chunk_id (h r)) fused = sort_desc (rrf_value k vr br) ids"
proof -
  have set_ids: "set ids = (\<lambda>r. chunk_id (h r)) ` (set vs \<union> set bs)"
    by (rule fusion_result(3) [OF perm k vr br ids cm fused])
  have "\<forall>i \<in> set (sort_desc (rrf_value k vr br) ids). chunk_id (h (the (dict_get cm i))) = i"
  proof
    fix i assume "i \<in> set (sort_desc (rrf_value k vr br) ids)"
    then have "i \<in> (\<lambda>r. chunk_id (h r)) ` (set vs \<union> set bs)"
      using set_ids by (simp add: sort_desc_def)
    from chunk_map_lookup [OF this] show "chunk_id (h (the (dict_get cm i))) = i"
      unfolding cm by auto
  qed
  then have "map (\<lambda>i. chunk_id (h (the (dict_get cm i)))) (sort_desc (rrf_value k vr br) ids)
               = map (\<lambda>i. i) (sort_desc (rrf_value k vr br) ids)"
    by (intro map_cong refl) simp
  then show ?thesis by (simp add: fused comp_def)
qed

lemma sort_desc_sorted: "sorted_wrt (\<lambda>x y. f y \<le> f x) (sort_desc f xs)"
proof -
  have "sorted (map (\<lambda>x. - f x) (sort_key (\<lambda>x. - f x) xs))" by (rule sorted_sort_key)
  then show ?thesis by (simp add: sort_desc_def sorted_map)
qed

lemma example_order:
  fixes A B C D :: uuid
  assumes perm: "\<forall>xs. mset (set_iter xs) = mset xs" and d: "distinct [A, B, C, D]"
  shows "sort_desc (rrf_spec 60 [A, B, C] [C, A, D]) (set_iter (remdups ([A, B, C] @ [C, A, D])))
           = [A, C, B, D]"
proof -
  have vals: "rrf_spec 60 [A, B, C] [C, A, D] A = 1/60 + 1/61"
    "rrf_spec 60 [A, B, C] [C, A, D] B = 1/61"
    "rrf_spec 60 [A, B, C] [C, A, D] C = 1/62 + 1/60"
    "rrf_spec 60 [A, B, C] [C, A, D] D = 1/62"
    using d by (auto simp: rrf_spec_def rrf_term_def)
  have "remdups ([A, B, C] @ [C, A, D]) = [B, C, A, D]" using d by auto
  then have m: "mset (set_iter (remdups ([A, B, C] @ [C, A, D]))) = mset [A, C, B, D]"
    using perm by simp
  show ?thesis
    unfolding sort_desc_def
  proof (rule sort_key_distinct_unique [OF m])
    show "sorted (map (\<lambda>x. - rrf_spec 60 [A, B, C] [C, A, D] x) [A, C, B, D])"
      by (simp add: vals)
    show "distinct (map (\<lambda>x. - rrf_spec 60 [A, B, C] [C, A, D] x) [A, C, B, D])"
      by (simp add: vals)
  qed
qed

text \<open>
  Claim C2. For a positive \<open>k\<close>, result lists without repeated ids and any iteration
  order of the set of ids, the fusion returns one chunk for each id of either list; the
  score of each returned chunk is the sum, over the lists that contain its id, of
  \<open>1 / (k + rank)\<close> with the 0-based rank in that list; the chunks are in descending order
  of that score. For the vector ids \<open>[A, B, C]\<close>, the lexical ids \<open>[C, A, D]\<close> and
  \<open>k = 60\<close> the order is exactly \<open>A, C, B, D\<close>.
\<close>

theorem reciprocal_rank_fusion_scores:
  assumes perm: "\<forall>xs. mset (set_iter xs) = mset xs" and k: "0 < k"
    and vids: "vids = map (\<lambda>r. chunk_id (h r)) vs" and bids: "bids = map (\<lambda>r. chunk_id (h r)) bs"
    and dv: "distinct vids" and db: "distinct bids"
  shows "\<exists>h' fused. reciprocal_rank_fusion set_iter h vs bs k = Inr (h', fused)
     \<and> distinct (map (\<lambda>r. chunk_id (h' r)) fused)
     \<and> set (map (\<lambda>r. chunk_id (h' r)) fused) = set vids \<union> set bids
     \<and> (\<forall>r \<in> set fused. score (h' r) = rrf_spec k vids bids (chunk_id (h' r)))
     \<and> sorted_wrt (\<lambda>x y. score (h' y) \<le> score (h' x)) fused
     \<and> (k = 60 \<and> vids = [A, B, C] \<and> bids = [C, A, D] \<and> distinct [A, B, C, D]
          \<longrightarrow> map (\<lambda>r. chunk_id (h' r)) fused = [A, C, B, D])"
proof -
  define vr where "vr = rank_map h vs"
  define br where "br = rank_map h bs"
  define ids where "ids = set_iter (remdups (dict_keys vr @ dict_keys br))"
  define cm where "cm = map (\<lambda>r. (chunk_id (h r), r)) (vs @ bs)"
  define fused where "fused = map (\<lambda>i. the (dict_get cm i)) (sort_desc (rrf_value k vr br) ids)"
  define h' where "h' = (\<lambda>r. if r \<in> set fused
                        then (h r)\<lparr>score := rrf_value k vr br (chunk_id (h r))\<rparr> else h r)"
  define V where "V = rrf_spec k vids bids"
  note fr = fusion_result [OF perm k vr_def br_def ids_def cm_def fused_def]
  have res: "reciprocal_rank_fusion set_iter h vs bs k = Inr (h', fused)"
    using fr(1) by (simp add: h'_def)
  have VV: "rrf_value k vr br = V"
    using dv db by (intro ext) (simp add: V_def vr_def br_def vids bids rrf_value_spec)
  have cid: "\<And>r. chunk_id (h' r) = chunk_id (h r)" by (simp add: h'_def)
  have keys: "dict_keys vr = vids" "dict_keys br = bids"
    using dv db by (simp_all add: vr_def br_def vids bids dict_keys_distinct map_fst_rank_map)
  have idl: "map (\<lambda>r. chunk_id (h' r)) fused = sort_desc V (set_iter (remdups (vids @ bids)))"
    using fused_ids [OF perm k vr_def br_def ids_def cm_def fused_def]
    by (simp add: cid VV ids_def keys)
  have set_ids: "set ids = set vids \<union> set bids"
    using fr(3) by (simp add: vids bids image_Un)
  have c1: "distinct (map (\<lambda>r. chunk_id (h' r)) fused)"
    using fr(2) by (simp add: idl sort_desc_def ids_def keys)
  have c2: "set (map (\<lambda>r. chunk_id (h' r)) fused) = set vids \<union> set bids"
    using set_ids by (simp only: idl) (simp add: sort_desc_def ids_def keys)
  have c3: "\<forall>r \<in> set fused. score (h' r) = V (chunk_id (h' r))"
    by (simp add: h'_def VV)
  have "sorted_wrt (\<lambda>x y. V y \<le> V x) (map (\<lambda>r. chunk_id (h' r)) fused)"
    by (simp only: idl sort_desc_sorted)
  then have "sorted_wrt (\<lambda>x y. V (chunk_id (h' y)) \<le> V (chunk_id (h' x))) fused"
    by (simp add: sorted_wrt_map)
  then have c4: "sorted_wrt (\<lambda>x y. score (h' y) \<le> score (h' x)) fused"
    using c3 by (auto elim!: sorted_wrt_mono_rel [rotated])
  have c5: "k = 60 \<and> vids = [A, B, C] \<and> bids = [C, A, D] \<and> distinct [A, B, C, D]
          \<longrightarrow> map (\<lambda>r. chunk_id (h' r)) fused = [A, C, B, D]"
  proof
    assume a: "k = 60 \<and> vids = [A, B, C] \<and> bids = [C, A, D] \<and> distinct [A, B, C, D]"
    then have "sort_desc V (set_iter (remdups (vids @ bids))) = [A, C, B, D]"
      using example_order [OF perm, of A B C D] by (simp add: V_def)
    then show "map (\<lambda>r. chunk_id (h' r)) fused = [A, C, B, D]" by (simp only: idl)
  qed
  have all: "reciprocal_rank_fusion set_iter h vs bs k = Inr (h', fused)
     \<and> distinct (map (\<lambda>r. chunk_id (h' r)) fused)
     \<and> set (map (\<lambda>r. chunk_id (h' r)) fused) = set vids \<union> set bids
     \<and> (\<forall>r \<in> set fused. score (h' r) = rrf_spec k vids bids (chunk_id (h' r)))
     \<and> sorted_wrt (\<lambda>x y. score (h' y) \<le> score (h' x)) fused
     \<and> (k = 60 \<and> vids = [A, B, C] \<and> bids = [C, A, D] \<and> distinct [A, B, C, D]
          \<longrightarrow> map (\<lambda>r. chunk_id (h' r)) fused = [A, C, B, D])"
    using res c1 c2 c3 c4 c5 unfolding V_def by (intro conjI)
  show ?thesis
    by (rule exI [where x = h'], rule exI [where x = fused]) (rule all)
qed

lemma sample_ids:
  "map (\<lambda>r. chunk_id (sample_heap r)) [0, 1, 2] = [10, 11, 12]"
  "map (\<lambda>r. chunk_id (sample_heap r)) [3, 4, 5] = [12, 10, 13]"
  by (simp_all add: sample_heap_def sample_chunk_def)

theorem reciprocal_rank_fusion_scores_witness:
  "\<exists>h' fused. reciprocal_rank_fusion rev sample_heap [0, 1, 2] [3, 4, 5] 60 = Inr (h', fused)
      \<and> map (\<lambda>r. chunk_id (h' r)) fused = [10, 12, 11, 13]"
proof -
  have perm: "\<forall>xs :: uuid list. mset (rev xs) = mset xs" by simp
  have d: "distinct [10 :: uuid, 11, 12]" "distinct [12 :: uuid, 10, 13]" by simp_all
  have "\<exists>h' fused. reciprocal_rank_fusion rev sample_heap [0, 1, 2] [3, 4, 5] 60 = Inr (h', fused)
     \<and> distinct (map (\<lambda>r. chunk_id (h' r)) fused)
     \<and> set (map (\<lambda>r. chunk_id (h' r)) fused) = set [10, 11, 12] \<union> set [12, 10, 13]
     \<and> (\<forall>r \<in> set fused. score (h' r) = rrf_spec 60 [10, 11, 12] [12, 10, 13] (chunk_id (h' r)))
     \<and> sorted_wrt (\<lambda>x y. score (h' y) \<le> score (h' x)) fused
     \<and> ((60::int) = 60 \<and> [10, 11, 12] = [10, 11, 12::uuid] \<and> [12, 10, 13] = [12, 10, 13::uuid]
            \<and> distinct [10, 11, 12, 13::uuid]
          \<longrightarrow> map (\<lambda>r. chunk_id (h' r)) fused = [10, 12, 11, 13])"
    by (rule reciprocal_rank_fusion_scores [OF perm _ sample_ids(1) [symmetric]
          sample_ids(2) [symmetric] d]) simp
  then show ?thesis by auto
qed

text \<open>
  Claim C10. The fusion returns objects of its two input lists: for an id of the
  lexical list, the object of the lexical list. In the store after the call each
  returned object differs from before in its score only, which is its fused score, and
  every other object is unchanged. The mutation reaches the lists of the caller: every
  object of a lexical list without repeated ids is returned, and so is every object of a
  vector list without repeated ids whose id is not in the lexical list.
\<close>

theorem fusion_returns_and_mutates_inputs:
  assumes perm: "\<forall>xs. mset (set_iter xs) = mset xs" and k: "0 < k"
  shows "\<exists>h' fused. reciprocal_rank_fusion set_iter h vs bs k = Inr (h', fused)
     \<and> set fused \<subseteq> set vs \<union> set bs
     \<and> (\<forall>r \<in> set fused. chunk_id (h r) \<in> (\<lambda>r. chunk_id (h r)) ` set bs \<longrightarrow> r \<in> set bs)
     \<and> (\<forall>r \<in> set fused.
           h' r = (h r)\<lparr>score := rrf_value k (rank_map h vs) (rank_map h bs) (chunk_id (h r))\<rparr>)
     \<and> (\<forall>r. r \<notin> set fused \<longrightarrow> h' r = h r)
     \<and> (distinct (map (\<lambda>r. chunk_id (h r)) bs) \<longrightarrow> set bs \<subseteq> set fused)
     \<and> (distinct (map (\<lambda>r. chunk_id (h r)) vs) \<longrightarrow>
          (\<forall>r \<in> set vs. chunk_id (h r) \<notin> (\<lambda>r. chunk_id (h r)) ` set bs \<longrightarrow> r \<in> set fused))"
proof -
  define vr where "vr = rank_map h vs"
  define br where "br = rank_map h bs"
  define ids where "ids = set_iter (remdups (dict_keys vr @ dict_keys br))"
  define cm where "cm = map (\<lambda>r. (chunk_id (h r), r)) (vs @ bs)"
  define fused where "fused = map (\<lambda>i. the (dict_get cm i)) (sort_desc (rrf_value k vr br) ids)"
  define h' where "h' = (\<lambda>r. if r \<in> set fused
                        then (h r)\<lparr>score := rrf_value k vr br (chunk_id (h r))\<rparr> else h r)"
  note fr = fusion_result [OF perm k vr_def br_def ids_def cm_def fused_def]
  have res: "reciprocal_rank_fusion set_iter h vs bs k = Inr (h', fused)"
    using fr(1) by (simp add: h'_def)
  have sf: "set fused = (\<lambda>i. the (dict_get cm i)) ` (\<lambda>r. chunk_id (h r)) ` (set vs \<union> set bs)"
    using fr(3) by (simp add: fused_def sort_desc_def)
  have look: "\<And>i. i \<in> (\<lambda>r. chunk_id (h r)) ` (set vs \<union> set bs) \<Longrightarrow>
      the (dict_get cm i) \<in> set vs \<union> set bs \<and> chunk_id (h (the (dict_get cm i))) = i
      \<and> (i \<in> (\<lambda>r. chunk_id (h r)) ` set bs \<longrightarrow> the (dict_get cm i) \<in> set bs)"
  proof -
    fix i assume "i \<in> (\<lambda>r. chunk_id (h r)) ` (set vs \<union> set bs)"
    from chunk_map_lookup [OF this] show "the (dict_get cm i) \<in> set vs \<union> set bs
      \<and> chunk_id (h (the (dict_get cm i))) = i
      \<and> (i \<in> (\<lambda>r. chunk_id (h r)) ` set bs \<longrightarrow> the (dict_get cm i) \<in> set bs)"
      unfolding cm_def by auto
  qed
  have c1: "set fused \<subseteq> set vs \<union> set bs"
    unfolding sf using look by blast
  have c2: "\<forall>r \<in> set fused. chunk_id (h r) \<in> (\<lambda>r. chunk_id (h r)) ` set bs \<longrightarrow> r \<in> set bs"
    unfolding sf using look by (metis (no_types, lifting) imageE)
  have c3: "\<forall>r \<in> set fused.
           h' r = (h r)\<lparr>score := rrf_value k (rank_map h vs) (rank_map h bs) (chunk_id (h r))\<rparr>"
    by (simp add: h'_def vr_def br_def)
  have c4: "\<forall>r. r \<notin> set fused \<longrightarrow> h' r = h r" by (simp add: h'_def)
  have c5: "distinct (map (\<lambda>r. chunk_id (h r)) bs) \<longrightarrow> set bs \<subseteq> set fused"
  proof (intro impI subsetI)
    fix r assume d: "distinct (map (\<lambda>r. chunk_id (h r)) bs)" and r: "r \<in> set bs"
    define i where "i = chunk_id (h r)"
    have i: "i \<in> (\<lambda>r. chunk_id (h r)) ` (set vs \<union> set bs)"
      and ib: "i \<in> (\<lambda>r. chunk_id (h r)) ` set bs" using r by (auto simp: i_def)
    from look [OF i] ib have r': "the (dict_get cm i) \<in> set bs"
      and e: "chunk_id (h (the (dict_get cm i))) = chunk_id (h r)" by (simp_all add: i_def)
    have "inj_on (\<lambda>r. chunk_id (h r)) (set bs)" using d by (simp add: distinct_map)
    then have "the (dict_get cm i) = r" using r r' e by (auto dest: inj_onD)
    then show "r \<in> set fused" unfolding sf using i by (metis imageI)
  qed
  have c6: "distinct (map (\<lambda>r. chunk_id (h r)) vs) \<longrightarrow>
          (\<forall>r \<in> set vs. chunk_id (h r) \<notin> (\<lambda>r. chunk_id (h r)) ` set bs \<longrightarrow> r \<in> set fused)"
  proof (intro impI ballI)
    fix r assume d: "distinct (map (\<lambda>r. chunk_id (h r)) vs)" and r: "r \<in> set vs"
      and nb: "chunk_id (h r) \<notin> (\<lambda>r. chunk_id (h r)) ` set bs"
    define i where "i = chunk_id (h r)"
    have i: "i \<in> (\<lambda>r. chunk_id (h r)) ` (set vs \<union> set bs)" using r by (auto simp: i_def)
    from look [OF i] have m: "the (dict_get cm i) \<in> set vs \<union> set bs"
      and e: "chunk_id (h (the (dict_get cm i))) = chunk_id (h r)" by (simp_all add: i_def)
    have "the (dict_get cm i) \<notin> set bs" using nb e by (metis imageI)
    then have r': "the (dict_get cm i) \<in> set vs" using m by simp
    have "inj_on (\<lambda>r. chunk_id (h r)) (set vs)" using d by (simp add: distinct_map)
    then have "the (dict_get cm i) = r" using r r' e by (auto dest: inj_onD)
    then show "r \<in> set fused" unfolding sf using i by (metis imageI)
  qed
  have all: "reciprocal_rank_fusion set_iter h vs bs k = Inr (h', fused)
     \<and> set fused \<subseteq> set vs \<union> set bs
     \<and> (\<forall>r \<in> set fused. chunk_id (h r) \<in> (\<lambda>r. chunk_id (h r)) ` set bs \<longrightarrow> r \<in> set bs)
     \<and> (\<forall>r \<in> set fused.
           h' r = (h r)\<lparr>score := rrf_value k (rank_map h vs) (rank_map h bs) (chunk_id (h r))\<rparr>)
     \<and> (\<forall>r. r \<notin> set fused \<longrightarrow> h' r = h r)
     \<and> (distinct (map (\<lambda>r. chunk_id (h r)) bs) \<longrightarrow> set bs \<subseteq> set fused)
     \<and> (distinct (map (\<lambda>r. chunk_id (h r)) vs) \<longrightarrow>
          (\<forall>r \<in> set vs. chunk_id (h r) \<notin> (\<lambda>r. chunk_id (h r)) ` set bs \<longrightarrow> r \<in> set fused))"
    using res c1 c2 c3 c4 c5 c6 by (intro conjI)
  show ?thesis
    by (rule exI [where x = h'], rule exI [where x = fused]) (rule all)
qed


theorem fusion_returns_and_mutates_inputs_witness:
  "\<exists>h' fused. reciprocal_rank_fusion rev sample_heap [0, 1, 2] [3, 4, 5] 60 = Inr (h', fused)
      \<and> set fused = {1, 3, 4, 5}
      \<and> h' 0 = sample_heap 0 \<and> h' 2 = sample_heap 2
      \<and> h' 4 = (sample_heap 4)\<lparr>score := 1/60 + 1/61\<rparr>"
proof -
  have perm: "\<forall>xs :: uuid list. mset (rev xs) = mset xs" by simp
  obtain h' fused where
    res: "reciprocal_rank_fusion rev sample_heap [0, 1, 2] [3, 4, 5] 60 = Inr (h', fused)"
    and sub: "set fused \<subseteq> set [0, 1, 2] \<union> set [3, 4, 5]"
    and both: "\<forall>r \<in> set fused. chunk_id (sample_heap r)
                  \<in> (\<lambda>r. chunk_id (sample_heap r)) ` set [3, 4, 5] \<longrightarrow> r \<in> set [3, 4, 5]"
    and upd: "\<forall>r \<in> set fused. h' r = (sample_heap r)\<lparr>score :=
                 rrf_value 60 (rank_map sample_heap [0, 1, 2]) (rank_map sample_heap [3, 4, 5])
                   (chunk_id (sample_heap r))\<rparr>"
    and frame: "\<forall>r. r \<notin> set fused \<longrightarrow> h' r = sample_heap r"
    and bm: "distinct (map (\<lambda>r. chunk_id (sample_heap r)) [3, 4, 5]) \<longrightarrow> set [3, 4, 5] \<subseteq> set fused"
    and vec: "distinct (map (\<lambda>r. chunk_id (sample_heap r)) [0, 1, 2]) \<longrightarrow>
          (\<forall>r \<in> set [0, 1, 2]. chunk_id (sample_heap r)
              \<notin> (\<lambda>r. chunk_id (sample_heap r)) ` set [3, 4, 5] \<longrightarrow> r \<in> set fused)"
    using fusion_returns_and_mutates_inputs [OF perm, of 60 sample_heap "[0, 1, 2]" "[3, 4, 5]"]
    by auto
  have cid: "chunk_id (sample_heap 0) = 10" "chunk_id (sample_heap 1) = 11"
    "chunk_id (sample_heap 2) = 12" "chunk_id (sample_heap 3) = 12"
    "chunk_id (sample_heap 4) = 10" "chunk_id (sample_heap 5) = 13"
    "chunk_id (sample_heap (Suc 0)) = 11"
    by (simp_all add: sample_heap_def sample_chunk_def)
  have in345: "3 \<in> set fused" "4 \<in> set fused" "5 \<in> set fused"
    using bm by (simp_all add: cid)
  have in1: "1 \<in> set fused" using vec by (simp add: cid)
  have out0: "0 \<notin> set fused" using both by (auto simp: cid)
  have out2: "2 \<notin> set fused" using both by (auto simp: cid)
  have sf: "set fused = {1, 3, 4, 5}"
    using sub in345 in1 out0 out2 by auto
  have "rrf_value 60 (rank_map sample_heap [0, 1, 2]) (rank_map sample_heap [3, 4, 5]) 10
          = 1/60 + 1/61"
    by (simp add: rrf_value_def rank_map_def dict_get_def cid)
  then have h4: "h' 4 = (sample_heap 4)\<lparr>score := 1/60 + 1/61\<rparr>"
    using upd in345(2) by (simp add: cid)
  have "h' 0 = sample_heap 0" "h' 2 = sample_heap 2"
    using frame out0 out2 by simp_all
  with res sf h4 show ?thesis by blast
qed

section \<open>The layout of a split section\<close>





























































section \<open>Token counts of the chunks\<close>










section \<open>Overlap between the chunks of a section\<close>


lemma spaced_section_texts:
  "map chunk_text (chunk_document (byte_chunker 8 10 3) (sample_document [spaced_section]))
     = [''aaaaa bc'', ''bc\<newline>\<newline>dddd'']"
  by code_simp








end
